theory Spec2Isabelle
  imports
    Complex_Main
    "HOL-Library.Multiset"
    "HOL-Library.Char_ord"
    "HOL-Library.List_Lexorder"
begin

section \<open>Graphlet hashing (\<^verbatim>\<open>RNAGlib/utils/graphlet_hash.py\<close>)\<close>

text \<open>
  The development embeds the functions of \<^verbatim>\<open>graphlet_hash.py\<close>: the edge-label
  canonicalisation loop and the Weisfeiler-Lehman digest of \<^verbatim>\<open>Hasher.hash\<close>,
  \<^verbatim>\<open>extract_graphlet\<close>, \<^verbatim>\<open>build_hash_table\<close> and \<^verbatim>\<open>GED_hashtable_hashed\<close>.
  Python exceptions are values of the type \<open>error\<close>; a function that can raise returns
  \<open>error + 'a\<close> with \<open>Inl\<close> for the exception.
\<close>

subsection \<open>Errors\<close>

datatype error = KeyError | IndexError | OracleTimeoutError | OracleComputationError

subsection \<open>Edge-label canonicalisation (lines 80-85)\<close>

text \<open>
  The body of the loop of \<^verbatim>\<open>Hasher.hash\<close> on one label:
  \<^verbatim>\<open>
  if label != 'B53':
      prefix, suffix = label[0], label[1:]
      G[u][v][self.label] = prefix + "".join(sorted(suffix))
  \<close>
  \<^verbatim>\<open>label[0]\<close> raises IndexError on the empty string. \<^verbatim>\<open>sorted\<close> orders
  the characters by code point, which is the order of \<open>HOL-Library.Char_ord\<close>.
\<close>

definition canonicalize :: "string \<Rightarrow> error + string" where
  "canonicalize label =
     (if label \<noteq> ''B53'' then
        (case label of
           [] \<Rightarrow> Inl IndexError
         | prefix # suffix \<Rightarrow> Inr (prefix # sort suffix))
      else Inr label)"

subsection \<open>Graphs\<close>

text \<open>
  A networkx graph as the functions of this module read it. \<open>nodes\<close> is
  \<^verbatim>\<open>G.nodes()\<close> in iteration order; \<open>node_label n\<close> is the node's attribute under
  the hasher's label key (\<^verbatim>\<open>'LW'\<close> by default), \<open>None\<close> when the node has no such
  attribute; \<open>edges\<close> is \<^verbatim>\<open>G.edges(data=label)\<close> of a \<^verbatim>\<open>DiGraph\<close> in iteration
  order: the edge \<open>(u, v)\<close> with the value of \<^verbatim>\<open>G[u][v][label]\<close>, \<open>None\<close> when the edge
  has no such attribute (reading it raises KeyError). An undirected \<^verbatim>\<open>Graph\<close> is
  the digraph with both orientations of every edge, carrying the same label: the two
  adjacency entries of networkx share one attribute dictionary.
\<close>

record 'n graph =
  nodes :: "'n list"
  node_label :: "'n \<Rightarrow> string option"
  edges :: "(('n \<times> 'n) \<times> string option) list"

text \<open>
  The invariants networkx maintains: a node occurs once, an ordered pair has at most one
  edge, the endpoints of an edge are nodes, and only nodes carry attributes.
\<close>

definition wf_graph :: "'n graph \<Rightarrow> bool" where
  "wf_graph G \<longleftrightarrow>
     distinct (nodes G) \<and> distinct (map fst (edges G)) \<and>
     list_all (\<lambda>((u, v), l). u \<in> set (nodes G) \<and> v \<in> set (nodes G)) (edges G) \<and>
     dom (node_label G) \<subseteq> set (nodes G)"

text \<open>
  The loop \<^verbatim>\<open>for u, v in G.edges(): ...\<close> of \<^verbatim>\<open>Hasher.hash\<close>: every edge label is
  read (KeyError when the attribute is missing), canonicalised and written back. The
  first exception ends the loop.
\<close>

fun canonicalize_edges ::
  "(('n \<times> 'n) \<times> string option) list \<Rightarrow> error + (('n \<times> 'n) \<times> string option) list" where
  "canonicalize_edges [] = Inr []"
| "canonicalize_edges ((uv, None) # es) = Inl KeyError"
| "canonicalize_edges ((uv, Some label) # es) =
     (case canonicalize label of
        Inl e \<Rightarrow> Inl e
      | Inr label' \<Rightarrow>
          (case canonicalize_edges es of
             Inl e \<Rightarrow> Inl e
           | Inr es' \<Rightarrow> Inr ((uv, Some label') # es')))"

subsection \<open>Weisfeiler-Lehman refinement (lines 114-134 and networkx)\<close>

text \<open>
  A labelling is the Python dictionary \<^verbatim>\<open>{node: label}\<close> in insertion order;
  \<open>map_of\<close> is the lookup, a missing key raises KeyError.
\<close>

type_synonym 'n labelling = "('n \<times> string) list"

text \<open>\<^verbatim>\<open>G.neighbors(n)\<close> with the label of the connecting edge \<^verbatim>\<open>G[n][nei][label]\<close>.\<close>

definition out_edges :: "'n graph \<Rightarrow> 'n \<Rightarrow> ('n \<times> string option) list" where
  "out_edges G n = map (\<lambda>((u, v), l). (v, l)) (filter (\<lambda>((u, v), l). u = n) (edges G))"

text \<open>
  The loop of \<^verbatim>\<open>nei_agg_edges\<close>:
  \<^verbatim>\<open>for nei in G.neighbors(n): x.append(G[n][nei][edge_labels] + node_labels[nei])\<close>.
\<close>

fun nei_strs :: "('n \<times> string option) list \<Rightarrow> 'n labelling \<Rightarrow> error + string list" where
  "nei_strs [] node_labels = Inr []"
| "nei_strs ((nei, None) # r) node_labels = Inl KeyError"
| "nei_strs ((nei, Some el) # r) node_labels =
     (case map_of node_labels nei of
        None \<Rightarrow> Inl KeyError
      | Some nl \<Rightarrow>
          (case nei_strs r node_labels of
             Inl e \<Rightarrow> Inl e
           | Inr xs \<Rightarrow> Inr ((el @ nl) # xs)))"

text \<open>
  \<^verbatim>\<open>nei_agg_edges\<close>: \<^verbatim>\<open>x = [node_labels[n]]\<close>, the loop, then
  \<^verbatim>\<open>''.join(sorted(x))\<close>. Strings are compared lexicographically by code point
  (\<open>HOL-Library.List_Lexorder\<close> over \<open>Char_ord\<close>).
\<close>

definition nei_agg_edges :: "'n graph \<Rightarrow> 'n \<Rightarrow> 'n labelling \<Rightarrow> error + string" where
  "nei_agg_edges G n node_labels =
     (case map_of node_labels n of
        None \<Rightarrow> Inl KeyError
      | Some own \<Rightarrow>
          (case nei_strs (out_edges G n) node_labels of
             Inl e \<Rightarrow> Inl e
           | Inr xs \<Rightarrow> Inr (concat (sort (own # xs)))))"

text \<open>
  \<^verbatim>\<open>WL_step_edges\<close>: the new label of every node of \<^verbatim>\<open>G.nodes()\<close>, in order;
  \<open>WL_step_loop\<close> is its \<^verbatim>\<open>for\<close> loop over the nodes still to do.
\<close>

fun WL_step_loop :: "'n graph \<Rightarrow> 'n labelling \<Rightarrow> 'n list \<Rightarrow> error + 'n labelling" where
  "WL_step_loop G labels [] = Inr []"
| "WL_step_loop G labels (n # ns) =
     (case nei_agg_edges G n labels of
        Inl e \<Rightarrow> Inl e
      | Inr s \<Rightarrow>
          (case WL_step_loop G labels ns of
             Inl e \<Rightarrow> Inl e
           | Inr new_labels \<Rightarrow> Inr ((n, s) # new_labels)))"

definition WL_step_edges :: "'n graph \<Rightarrow> 'n labelling \<Rightarrow> error + 'n labelling" where
  "WL_step_edges G labels = WL_step_loop G labels (nodes G)"

text \<open>A digest is the hexadecimal string that \<^verbatim>\<open>hexdigest()\<close> returns.\<close>

type_synonym digest = string

text \<open>
  \<^verbatim>\<open>wl\<close> is networkx's \<^verbatim>\<open>weisfeiler_lehman_graph_hash\<close>, called at line 86 with
  \<^verbatim>\<open>edge_attr=self.label\<close> and no \<^verbatim>\<open>node_attr\<close>. It is library code; the model
  follows the library: every node starts with the label \<^verbatim>\<open>''\<close> (no node attribute
  is read), each iteration replaces the labelling by the step that
  \<^verbatim>\<open>WL_step_edges\<close> copies into this module, counts the BLAKE2b digests of the new
  labels in a \<^verbatim>\<open>Counter\<close> and appends the counter's items sorted by key; the
  result is the BLAKE2b digest of \<^verbatim>\<open>str(tuple(items))\<close>. The digest function
  \<^verbatim>\<open>blake2b(...).hexdigest()\<close> is a parameter of the model.
\<close>

definition init_node_labels :: "'n graph \<Rightarrow> 'n labelling" where
  "init_node_labels G = map (\<lambda>n. (n, [])) (nodes G)"

text \<open>\<^verbatim>\<open>sorted(Counter(xs).items(), key=lambda x: x[0])\<close>: the keys are distinct.\<close>

definition counter_items :: "string list \<Rightarrow> (string \<times> nat) list" where
  "counter_items xs = map (\<lambda>k. (k, count_list xs k)) (sort (remdups xs))"

text \<open>Python's \<^verbatim>\<open>str\<close> of a natural number: its decimal digits.\<close>

fun show_nat :: "nat \<Rightarrow> string" where
  "show_nat n =
     (if n < 10 then [char_of (48 + n)]
      else show_nat (n div 10) @ [char_of (48 + n mod 10)])"

text \<open>
  Python's \<^verbatim>\<open>str\<close> of a pair \<^verbatim>\<open>(hexdigest, count)\<close>, as in \<^verbatim>\<open>('ab12', 3)\<close>;
  \<open>CHR 0x27\<close> is the single quote.
\<close>

definition show_item :: "string \<times> nat \<Rightarrow> string" where
  "show_item kc = ''('' @ [CHR 0x27] @ fst kc @ [CHR 0x27] @ '', '' @ show_nat (snd kc) @ '')''"

text \<open>\<^verbatim>\<open>', '.join(xs)\<close>.\<close>

fun join_items :: "string list \<Rightarrow> string" where
  "join_items [] = []"
| "join_items [x] = x"
| "join_items (x # y # r) = x @ '', '' @ join_items (y # r)"

text \<open>
  Python's \<^verbatim>\<open>str\<close> of a tuple of \<^verbatim>\<open>(hexdigest, count)\<close> pairs: \<^verbatim>\<open>()\<close> when
  it is empty, a trailing comma when it has one element.
\<close>

definition str_tuple :: "(string \<times> nat) list \<Rightarrow> string" where
  "str_tuple items =
     (case items of
        [] \<Rightarrow> ''()''
      | [x] \<Rightarrow> ''('' @ show_item x @ '',)''
      | _ \<Rightarrow> ''('' @ join_items (map show_item items) @ '')'')"

fun wl_loop ::
  "(string \<Rightarrow> digest) \<Rightarrow> 'n graph \<Rightarrow> nat \<Rightarrow> 'n labelling \<Rightarrow> (string \<times> nat) list
     \<Rightarrow> error + (string \<times> nat) list" where
  "wl_loop blake2b G 0 node_labels items = Inr items"
| "wl_loop blake2b G (Suc k) node_labels items =
     (case WL_step_edges G node_labels of
        Inl e \<Rightarrow> Inl e
      | Inr node_labels' \<Rightarrow>
          wl_loop blake2b G k node_labels'
            (items @ counter_items (map (\<lambda>(node, d). blake2b d) node_labels')))"

definition wl :: "(string \<Rightarrow> digest) \<Rightarrow> 'n graph \<Rightarrow> nat \<Rightarrow> error + digest" where
  "wl blake2b G iterations =
     (case wl_loop blake2b G iterations (init_node_labels G) [] of
        Inl e \<Rightarrow> Inl e
      | Inr items \<Rightarrow> Inr (blake2b (str_tuple items)))"

subsection \<open>Hasher (lines 46-106)\<close>

text \<open>
  The fields of \<^verbatim>\<open>Hasher\<close> that \<^verbatim>\<open>hash\<close> reads. The attribute key
  \<^verbatim>\<open>self.label\<close> is the key under which the graph model holds its labels.
\<close>

record hasher =
  symmetric_edges :: bool
  wl_hops :: nat

text \<open>The defaults of \<^verbatim>\<open>Hasher.__init__\<close>.\<close>

definition default_hasher :: hasher where
  "default_hasher = \<lparr>symmetric_edges = True, wl_hops = 2\<rparr>"

text \<open>
  \<^verbatim>\<open>Hasher.hash\<close> rewrites the edge labels of its argument in place and returns
  the digest: the model returns the graph as the call leaves it together with the
  digest.
\<close>

definition hash :: "(string \<Rightarrow> digest) \<Rightarrow> hasher \<Rightarrow> 'n graph \<Rightarrow> error + ('n graph \<times> digest)" where
  "hash blake2b self G =
     (if symmetric_edges self then
        (case canonicalize_edges (edges G) of
           Inl e \<Rightarrow> Inl e
         | Inr es \<Rightarrow>
             (case wl blake2b (G\<lparr>edges := es\<rparr>) (wl_hops self) of
                Inl e \<Rightarrow> Inl e
              | Inr h \<Rightarrow> Inr (G\<lparr>edges := es\<rparr>, h)))
      else
        (case wl blake2b G (wl_hops self) of
           Inl e \<Rightarrow> Inl e
         | Inr h \<Rightarrow> Inr (G, h)))"

subsection \<open>Graphlet extraction (lines 137-140)\<close>

text \<open>
  Modelled from the spec: one hop of \<^verbatim>\<open>bfs_expand\<close>, which is not among the source
  files. Spec 4.2: a hop is defined over edges carrying the label attribute. \<open>hop G ns\<close>
  are the nodes at the end of such an edge that starts in \<open>ns\<close>.
\<close>

definition hop :: "'n graph \<Rightarrow> 'n list \<Rightarrow> 'n list" where
  "hop G ns = concat (map (\<lambda>n. map fst (filter (\<lambda>(v, l). l \<noteq> None) (out_edges G n))) ns)"

text \<open>
  Modelled from the spec: \<^verbatim>\<open>bfs_expand\<close> (module \<^verbatim>\<open>utils.graph_utils\<close>) is not
  among the source files. Spec 4.2: a breadth-first traversal from the root out to
  \<open>depth\<close> hops; the result is the set of visited nodes, and depth 0 visits the root
  alone.
\<close>

fun bfs_expand :: "'n graph \<Rightarrow> 'n list \<Rightarrow> nat \<Rightarrow> 'n list" where
  "bfs_expand G visited 0 = remdups visited"
| "bfs_expand G visited (Suc depth) = bfs_expand G (visited @ hop G visited) depth"

text \<open>
  \<^verbatim>\<open>G.subgraph(ns).copy()\<close> of networkx: the nodes of \<open>G\<close> that are in \<open>ns\<close> with
  their attributes, and the edges of \<open>G\<close> between them with theirs, as a new graph.
\<close>

definition subgraph_copy :: "'n graph \<Rightarrow> 'n list \<Rightarrow> 'n graph" where
  "subgraph_copy G ns =
     \<lparr>nodes = filter (\<lambda>n. n \<in> set ns) (nodes G),
      node_label = (\<lambda>n. if n \<in> set ns then node_label G n else None),
      edges = filter (\<lambda>((u, v), l). u \<in> set ns \<and> v \<in> set ns) (edges G)\<rparr>"

text \<open>
  \<^verbatim>\<open>extract_graphlet\<close>: \<^verbatim>\<open>G.subgraph(bfs_expand(G, [n], depth=size, label=label)).copy()\<close>.
\<close>

definition extract_graphlet :: "'n graph \<Rightarrow> 'n \<Rightarrow> nat \<Rightarrow> 'n graph" where
  "extract_graphlet G n size' = subgraph_copy G (bfs_expand G [n] size')"

text \<open>\<^verbatim>\<open>Hasher.get_node_hash\<close> (line 106).\<close>

definition get_node_hash ::
  "(string \<Rightarrow> digest) \<Rightarrow> hasher \<Rightarrow> 'n graph \<Rightarrow> 'n \<Rightarrow> error + ('n graph \<times> digest)" where
  "get_node_hash blake2b self G n = hash blake2b self (extract_graphlet G n (wl_hops self))"

subsection \<open>The hash table (lines 142-189)\<close>

text \<open>
  A bucket is \<^verbatim>\<open>{'graph': n, 'count': c}\<close> in count mode and \<^verbatim>\<open>{'graphs': [...]}\<close>
  in append mode; the table is a dictionary from digests to buckets.
\<close>

datatype 'n bucket = Count_bucket "'n graph" nat | Append_bucket "'n graph list"

type_synonym 'n hash_table = "digest \<Rightarrow> 'n bucket option"

text \<open>
  Lines 178-188 for the graphlet \<open>n\<close> with digest \<open>h\<close>. Reading \<^verbatim>\<open>['graphs']\<close> or
  \<^verbatim>\<open>['count']\<close> of a bucket of the other mode raises KeyError.
\<close>

definition add_graphlet ::
  "string \<Rightarrow> 'n hash_table \<Rightarrow> 'n graph \<Rightarrow> digest \<Rightarrow> error + 'n hash_table" where
  "add_graphlet mode hash_table n h =
     (case hash_table h of
        None \<Rightarrow>
          if mode = ''append'' then Inr (hash_table(h \<mapsto> Append_bucket [n]))
          else Inr (hash_table(h \<mapsto> Count_bucket n 1))
      | Some b \<Rightarrow>
          if mode = ''append'' then
            (case b of
               Append_bucket gs \<Rightarrow> Inr (hash_table(h \<mapsto> Append_bucket (gs @ [n])))
             | Count_bucket g c \<Rightarrow> Inl KeyError)
          else
            (case b of
               Count_bucket g c \<Rightarrow> Inr (hash_table(h \<mapsto> Count_bucket g (c + 1)))
             | Append_bucket gs \<Rightarrow> Inl KeyError))"

text \<open>
  The loop \<^verbatim>\<open>for i, n in enumerate(todo)\<close>. \<^verbatim>\<open>hasher.hash(n)\<close> canonicalises the
  graphlet in place, so the graph stored in the bucket is the canonicalised one. An
  exception leaves the loop with the local table as it is at that moment: \<open>Inl (e, t)\<close>.
\<close>

fun todo_loop ::
  "(string \<Rightarrow> digest) \<Rightarrow> hasher \<Rightarrow> string \<Rightarrow> 'n hash_table \<Rightarrow> 'n graph list
     \<Rightarrow> (error \<times> 'n hash_table) + 'n hash_table" where
  "todo_loop blake2b hasher mode hash_table [] = Inr hash_table"
| "todo_loop blake2b hasher mode hash_table (n # todo) =
     (case hash blake2b hasher n of
        Inl e \<Rightarrow> Inl (e, hash_table)
      | Inr (n', h) \<Rightarrow>
          (case add_graphlet mode hash_table n' h of
             Inl e \<Rightarrow> Inl (e, hash_table)
           | Inr hash_table' \<Rightarrow> todo_loop blake2b hasher mode hash_table' todo))"

text \<open>Lines 172-175: the graphlets of one graph, or the graph itself.\<close>

definition todo_list :: "bool \<Rightarrow> nat \<Rightarrow> 'n graph \<Rightarrow> 'n graph list" where
  "todo_list graphlets graphlet_size G =
     (if graphlets then map (\<lambda>n. extract_graphlet G n graphlet_size) (nodes G) else [G])"

text \<open>
  The loop \<^verbatim>\<open>for g in tqdm(graphlist)\<close>. \<open>graphlist\<close> holds the graphs that
  \<^verbatim>\<open>load_json\<close> returns for the entries of the directory, in the order of
  \<^verbatim>\<open>os.listdir\<close>; \<open>to_undirected\<close> is networkx's \<^verbatim>\<open>G.to_undirected()\<close>.
\<close>

fun graph_loop ::
  "(string \<Rightarrow> digest) \<Rightarrow> ('n graph \<Rightarrow> 'n graph) \<Rightarrow> hasher \<Rightarrow> bool \<Rightarrow> nat \<Rightarrow> string \<Rightarrow> bool
     \<Rightarrow> 'n hash_table \<Rightarrow> 'n graph list \<Rightarrow> (error \<times> 'n hash_table) + 'n hash_table" where
  "graph_loop blake2b to_undirected hasher graphlets graphlet_size mode directed hash_table [] =
     Inr hash_table"
| "graph_loop blake2b to_undirected hasher graphlets graphlet_size mode directed hash_table
     (g # graphlist) =
     (let G = (if \<not> directed then to_undirected g else g) in
      case todo_loop blake2b hasher mode hash_table (todo_list graphlets graphlet_size G) of
        Inl et \<Rightarrow> Inl et
      | Inr hash_table' \<Rightarrow>
          graph_loop blake2b to_undirected hasher graphlets graphlet_size mode directed
            hash_table' graphlist)"

text \<open>Python's \<^verbatim>\<open>xs[:k]\<close>; a negative \<open>k\<close> counts from the end.\<close>

definition py_prefix :: "'a list \<Rightarrow> int \<Rightarrow> 'a list" where
  "py_prefix xs k = (if 0 \<le> k then take (nat k) xs else take (length xs - nat (- k)) xs)"

text \<open>
  \<^verbatim>\<open>build_hash_table\<close>. The table is a local variable: when an exception leaves the
  function, the caller gets the exception and no table.
\<close>

definition build_hash_table ::
  "(string \<Rightarrow> digest) \<Rightarrow> ('n graph \<Rightarrow> 'n graph) \<Rightarrow> 'n graph list \<Rightarrow> hasher \<Rightarrow> bool \<Rightarrow> int \<Rightarrow> nat
     \<Rightarrow> string \<Rightarrow> bool \<Rightarrow> error + 'n hash_table" where
  "build_hash_table blake2b to_undirected graph_dir hasher graphlets max_graphs graphlet_size
     mode directed =
     (let graphlist = (if max_graphs \<noteq> 0 then py_prefix graph_dir max_graphs else graph_dir) in
      case graph_loop blake2b to_undirected hasher graphlets graphlet_size mode directed
             Map.empty graphlist of
        Inl (e, hash_table) \<Rightarrow> Inl e
      | Inr hash_table \<Rightarrow> Inr hash_table)"

text \<open>\<^verbatim>\<open>Hasher.get_hash_table\<close> (lines 88-97): count mode, radius \<^verbatim>\<open>wl_hops\<close>.\<close>

definition get_hash_table ::
  "(string \<Rightarrow> digest) \<Rightarrow> ('n graph \<Rightarrow> 'n graph) \<Rightarrow> hasher \<Rightarrow> bool \<Rightarrow> 'n graph list \<Rightarrow> int
     \<Rightarrow> error + 'n hash_table" where
  "get_hash_table blake2b to_undirected self directed graph_dir max_graphs =
     build_hash_table blake2b to_undirected graph_dir self True max_graphs (wl_hops self)
       ''count'' directed"

subsection \<open>Floating-point numbers\<close>

text \<open>
  The scalars are Python floats and NumPy \<^verbatim>\<open>float64\<close> values: IEEE 754 binary64.
  A double is a real number, an infinity or NaN. The two zeros are one value: they
  are equal under \<^verbatim>\<open>==\<close>, and the operations used here do not tell them apart.
\<close>

datatype double = Fin real | PInf | NInf | NaN

text \<open>The least and the greatest exponent of a normal number.\<close>

definition emin :: int where "emin = - 1022"

definition emax :: int where "emax = 1023"

text \<open>
  Rounding to nearest, ties to even. The exponent of a normal number \<open>x\<close> is
  \<open>\<lfloor>log 2 \<bar>x\<bar>\<rfloor>\<close>, below the normal numbers it is \<open>emin\<close>. With 52 fraction bits, the
  doubles around \<open>x\<close> are the integer multiples of \<open>ulp x\<close>, and \<open>x\<close> is rounded to the
  nearest of them, to the even multiple when it is half way. A result of magnitude
  \<open>2 ^ 1024\<close> or more overflows to an infinity.
\<close>

definition exponent :: "real \<Rightarrow> int" where
  "exponent x = (if \<bar>x\<bar> < 2 powi emin then emin else \<lfloor>log 2 \<bar>x\<bar>\<rfloor>)"

definition ulp :: "real \<Rightarrow> real" where
  "ulp x = 2 powi (exponent x - 52)"

definition round_half_even :: "real \<Rightarrow> int" where
  "round_half_even q =
     (let n = \<lfloor>q\<rfloor>; r = q - of_int n in
      if r < 1 / 2 then n
      else if 1 / 2 < r then n + 1
      else if even n then n else n + 1)"

definition round_double :: "real \<Rightarrow> double" where
  "round_double x =
     (let y = of_int (round_half_even (x / ulp x)) * ulp x in
      if 2 powi (emax + 1) \<le> \<bar>y\<bar> then (if 0 < y then PInf else NInf) else Fin y)"

text \<open>
  Python's unary minus, \<^verbatim>\<open>*\<close> and \<^verbatim>\<open>-\<close> on floats: the exact result, rounded.
  None of them raises.
\<close>

fun fneg :: "double \<Rightarrow> double" where
  "fneg (Fin x) = Fin (- x)"
| "fneg PInf = NInf"
| "fneg NInf = PInf"
| "fneg NaN = NaN"

fun fmul :: "double \<Rightarrow> double \<Rightarrow> double" where
  "fmul (Fin x) (Fin y) = round_double (x * y)"
| "fmul NaN y = NaN"
| "fmul x NaN = NaN"
| "fmul (Fin x) PInf = (if x = 0 then NaN else if 0 < x then PInf else NInf)"
| "fmul (Fin x) NInf = (if x = 0 then NaN else if 0 < x then NInf else PInf)"
| "fmul PInf (Fin y) = (if y = 0 then NaN else if 0 < y then PInf else NInf)"
| "fmul NInf (Fin y) = (if y = 0 then NaN else if 0 < y then NInf else PInf)"
| "fmul PInf PInf = PInf"
| "fmul PInf NInf = NInf"
| "fmul NInf PInf = NInf"
| "fmul NInf NInf = PInf"

fun fsub :: "double \<Rightarrow> double \<Rightarrow> double" where
  "fsub (Fin x) (Fin y) = round_double (x - y)"
| "fsub NaN y = NaN"
| "fsub x NaN = NaN"
| "fsub (Fin x) PInf = NInf"
| "fsub (Fin x) NInf = PInf"
| "fsub PInf PInf = NaN"
| "fsub NInf NInf = NaN"
| "fsub PInf y = PInf"
| "fsub NInf y = NInf"

text \<open>
  \<^verbatim>\<open>np.exp\<close> on a \<^verbatim>\<open>float64\<close>: the exponential, rounded. It underflows to
  zero and overflows to infinity without raising. The function is taken as correctly
  rounded; the library's result can differ from that in the last bit.
\<close>

fun np_exp :: "double \<Rightarrow> double" where
  "np_exp (Fin x) = round_double (exp x)"
| "np_exp PInf = PInf"
| "np_exp NInf = Fin 0"
| "np_exp NaN = NaN"

subsection \<open>The GED table (lines 192-238)\<close>

text \<open>
  The GED table is a dictionary of dictionaries \<^verbatim>\<open>{h_i: {h_j: d}}\<close>, supplied
  by the caller. \<open>rows\<close> is its content. \<open>default_factory\<close> tells which dictionary the
  caller passed: a plain \<^verbatim>\<open>dict\<close> (reading or writing through a missing row raises
  KeyError) or a \<^verbatim>\<open>collections.defaultdict(dict)\<close> (reading a missing row creates
  it, empty). The scalars are doubles.
\<close>

record ged_table =
  default_factory :: bool
  rows :: "digest \<Rightarrow> (digest \<Rightarrow> double option) option"

text \<open>
  \<^verbatim>\<open>try: return GED_table[a][b] except: pass\<close>. The value found, or \<open>None\<close> when
  the lookup raised, and the table as the lookup leaves it.
\<close>

definition try_lookup :: "ged_table \<Rightarrow> digest \<Rightarrow> digest \<Rightarrow> double option \<times> ged_table" where
  "try_lookup GED_table a b =
     (case rows GED_table a of
        None \<Rightarrow>
          (None,
           if default_factory GED_table
           then GED_table\<lparr>rows := (rows GED_table)(a \<mapsto> Map.empty)\<rparr>
           else GED_table)
      | Some r \<Rightarrow> (r b, GED_table))"

text \<open>\<^verbatim>\<open>GED_table[a][b] = v\<close>.\<close>

definition store :: "ged_table \<Rightarrow> digest \<Rightarrow> digest \<Rightarrow> double \<Rightarrow> error + ged_table" where
  "store GED_table a b v =
     (case rows GED_table a of
        None \<Rightarrow>
          if default_factory GED_table
          then Inr (GED_table\<lparr>rows := (rows GED_table)(a \<mapsto> [b \<mapsto> v])\<rparr>)
          else Inl KeyError
      | Some r \<Rightarrow> Inr (GED_table\<lparr>rows := (rows GED_table)(a \<mapsto> r(b \<mapsto> v))\<rparr>))"

text \<open>\<^verbatim>\<open>graphlet_table[h]['graph']\<close>.\<close>

definition bucket_graph :: "'n hash_table \<Rightarrow> digest \<Rightarrow> error + 'n graph" where
  "bucket_graph graphlet_table h =
     (case graphlet_table h of
        None \<Rightarrow> Inl KeyError
      | Some (Count_bucket g c) \<Rightarrow> Inr g
      | Some (Append_bucket gs) \<Rightarrow> Inl KeyError)"

text \<open>
  \<^verbatim>\<open>GED_hashtable_hashed\<close>. \<open>ged\<close> is the distance oracle \<^verbatim>\<open>ged.rna_ged_nx.ged\<close>,
  which returns a distance or raises. The result is what the call returns or raises,
  the GED table as the call leaves it, and the number of times the oracle was invoked.
\<close>

definition GED_hashtable_hashed ::
  "('n graph \<Rightarrow> 'n graph \<Rightarrow> nat \<Rightarrow> error + double) \<Rightarrow> digest \<Rightarrow> digest \<Rightarrow> ged_table
     \<Rightarrow> 'n hash_table \<Rightarrow> bool \<Rightarrow> nat \<Rightarrow> double \<Rightarrow> nat \<Rightarrow> bool
     \<Rightarrow> (error + double) \<times> ged_table \<times> nat" where
  "GED_hashtable_hashed ged h_G h_H GED_table graphlet_table normed max_edges beta timeout
     similarity =
     (case try_lookup GED_table h_G h_H of
        (Some v, T1) \<Rightarrow> (Inr v, T1, 0)
      | (None, T1) \<Rightarrow>
     (case try_lookup T1 h_H h_G of
        (Some v, T2) \<Rightarrow> (Inr v, T2, 0)
      | (None, T2) \<Rightarrow>
     (case bucket_graph graphlet_table h_G of
        Inl e \<Rightarrow> (Inl e, T2, 0)
      | Inr G \<Rightarrow>
     (case bucket_graph graphlet_table h_H of
        Inl e \<Rightarrow> (Inl e, T2, 0)
      | Inr H \<Rightarrow>
     (case ged G H timeout of
        Inl e \<Rightarrow> (Inl e, T2, 1)
      | Inr distance \<Rightarrow>
          if similarity then
            (let similarity' = np_exp (fmul (fneg beta) distance) in
             case store T2 h_G h_H similarity' of
               Inl e \<Rightarrow> (Inl e, T2, 1)
             | Inr T3 \<Rightarrow> (Inr similarity', T3, 1))
          else
            (let distance' =
               (if normed then fsub (Fin 1) (np_exp (fmul (fneg beta) distance)) else distance) in
             case store T2 h_G h_H distance' of
               Inl e \<Rightarrow> (Inl e, T2, 1)
             | Inr T3 \<Rightarrow> (Inr distance', T3, 1)))))))"

subsection \<open>Graph objects and the store\<close>

text \<open>
  To tell a copy from a view, the attribute dictionaries are objects in a store. A
  dictionary is at an address; \<open>cells h a\<close> is its value under the label key (\<open>None\<close>
  when it has no such key), and \<open>next_free\<close> is the first address not yet allocated. A
  graph object refers to the dictionary of each node and of each edge by its address,
  so that two graph objects can share a dictionary, as a networkx subgraph view does
  with its graph.
\<close>

type_synonym addr = nat

record heap =
  cells :: "addr \<Rightarrow> string option"
  next_free :: addr

record 'n graph_obj =
  node_refs :: "('n \<times> addr) list"
  edge_refs :: "(('n \<times> 'n) \<times> addr) list"

definition deref :: "heap \<Rightarrow> ('k \<times> addr) list \<Rightarrow> ('k \<times> string option) list" where
  "deref h refs = map (\<lambda>(k, a). (k, cells h a)) refs"

text \<open>The graph that a graph object denotes in a store.\<close>

definition graph_of :: "heap \<Rightarrow> 'n graph_obj \<Rightarrow> 'n graph" where
  "graph_of h g =
     \<lparr>nodes = map fst (node_refs g),
      node_label = (\<lambda>n. case map_of (deref h (node_refs g)) n of None \<Rightarrow> None | Some v \<Rightarrow> v),
      edges = deref h (edge_refs g)\<rparr>"

text \<open>The addresses a graph object refers to; in a valid object all are allocated.\<close>

definition addrs :: "'n graph_obj \<Rightarrow> addr set" where
  "addrs g = snd ` set (node_refs g) \<union> snd ` set (edge_refs g)"

definition obj_valid :: "heap \<Rightarrow> 'n graph_obj \<Rightarrow> bool" where
  "obj_valid h g \<longleftrightarrow> list_all (\<lambda>(n, a). a < next_free h) (node_refs g) \<and>
                    list_all (\<lambda>(e, a). a < next_free h) (edge_refs g)"

text \<open>A new dictionary with the given content.\<close>

definition alloc :: "heap \<Rightarrow> string option \<Rightarrow> addr \<times> heap" where
  "alloc h v = (next_free h, h\<lparr>cells := (cells h)(next_free h := v), next_free := Suc (next_free h)\<rparr>)"

text \<open>
  \<^verbatim>\<open>.copy()\<close> of networkx gives every node and every edge of the copy a new
  attribute dictionary with the content of the old one.
\<close>

fun copy_refs :: "heap \<Rightarrow> ('k \<times> addr) list \<Rightarrow> heap \<times> ('k \<times> addr) list" where
  "copy_refs h [] = (h, [])"
| "copy_refs h ((k, a) # refs) =
     (case alloc h (cells h a) of
        (a', h1) \<Rightarrow> (case copy_refs h1 refs of (h2, refs') \<Rightarrow> (h2, (k, a') # refs')))"

text \<open>\<^verbatim>\<open>G.subgraph(ns).copy()\<close> on graph objects.\<close>

definition subgraph_copy_obj :: "heap \<Rightarrow> 'n graph_obj \<Rightarrow> 'n list \<Rightarrow> heap \<times> 'n graph_obj" where
  "subgraph_copy_obj h g ns =
     (case copy_refs h (filter (\<lambda>(n, a). n \<in> set ns) (node_refs g)) of
        (h1, nrefs) \<Rightarrow>
          (case copy_refs h1 (filter (\<lambda>((u, v), a). u \<in> set ns \<and> v \<in> set ns) (edge_refs g)) of
             (h2, erefs) \<Rightarrow> (h2, \<lparr>node_refs = nrefs, edge_refs = erefs\<rparr>)))"

text \<open>\<^verbatim>\<open>extract_graphlet\<close> on graph objects: the store after the call and the new object.\<close>

definition extract_graphlet_obj ::
  "heap \<Rightarrow> 'n graph_obj \<Rightarrow> 'n \<Rightarrow> nat \<Rightarrow> heap \<times> 'n graph_obj" where
  "extract_graphlet_obj h G n size' = subgraph_copy_obj h G (bfs_expand (graph_of h G) [n] size')"

text \<open>
  The loop of \<^verbatim>\<open>Hasher.hash\<close> (lines 81-85) on a graph object: each write
  \<^verbatim>\<open>G[u][v][self.label] = ...\<close> goes to the dictionary of the edge. The result is the
  exception that ended the loop, if any, and the store as the loop leaves it.
\<close>

fun canonicalize_edges_obj :: "heap \<Rightarrow> ('k \<times> addr) list \<Rightarrow> error option \<times> heap" where
  "canonicalize_edges_obj h [] = (None, h)"
| "canonicalize_edges_obj h ((uv, a) # es) =
     (case cells h a of
        None \<Rightarrow> (Some KeyError, h)
      | Some label \<Rightarrow>
          (case canonicalize label of
             Inl e \<Rightarrow> (Some e, h)
           | Inr label' \<Rightarrow> canonicalize_edges_obj (h\<lparr>cells := (cells h)(a := Some label')\<rparr>) es))"

text \<open>\<^verbatim>\<open>Hasher.hash\<close> on a graph object: the digest or the exception, and the store.\<close>

definition hash_obj ::
  "(string \<Rightarrow> digest) \<Rightarrow> hasher \<Rightarrow> heap \<Rightarrow> 'n graph_obj \<Rightarrow> (error + digest) \<times> heap" where
  "hash_obj blake2b self h G =
     (if symmetric_edges self then
        (case canonicalize_edges_obj h (edge_refs G) of
           (Some e, h') \<Rightarrow> (Inl e, h')
         | (None, h') \<Rightarrow> (wl blake2b (graph_of h' G) (wl_hops self), h'))
      else (wl blake2b (graph_of h G) (wl_hops self), h))"

subsection \<open>Notions used in the statements\<close>

text \<open>The size of a bucket: its count, or the length of its list.\<close>

definition bucket_size :: "'n bucket \<Rightarrow> nat" where
  "bucket_size b = (case b of Count_bucket g c \<Rightarrow> c | Append_bucket gs \<Rightarrow> length gs)"

definition table_size :: "'n hash_table \<Rightarrow> digest \<Rightarrow> nat" where
  "table_size hash_table h = (case hash_table h of None \<Rightarrow> 0 | Some b \<Rightarrow> bucket_size b)"

text \<open>The number of graphlets of a list whose digest is \<open>h\<close>.\<close>

definition digest_count :: "(string \<Rightarrow> digest) \<Rightarrow> hasher \<Rightarrow> digest \<Rightarrow> 'n graph list \<Rightarrow> nat" where
  "digest_count blake2b hasher h ns =
     length (filter (\<lambda>n. case hash blake2b hasher n of Inl e \<Rightarrow> False | Inr (n', d) \<Rightarrow> d = h) ns)"

text \<open>
  \<open>bucket_holds mode b N\<close>: the bucket is of the mode's kind and
  \<^verbatim>\<open>b['count'] == N\<close> (count mode), \<^verbatim>\<open>len(b['graphs']) == N\<close> (append mode).
  \<open>table_holds mode t h N\<close>: the table has no bucket for \<open>h\<close> and \<open>N\<close> is 0, or it
  has one that holds \<open>N\<close>, and \<open>N\<close> is positive.
\<close>

definition bucket_holds :: "string \<Rightarrow> 'n bucket \<Rightarrow> nat \<Rightarrow> bool" where
  "bucket_holds mode b N =
     (if mode = ''append'' then (case b of Append_bucket gs \<Rightarrow> length gs = N | Count_bucket g c \<Rightarrow> False)
      else (case b of Count_bucket g c \<Rightarrow> c = N | Append_bucket gs \<Rightarrow> False))"

definition table_holds :: "string \<Rightarrow> 'n hash_table \<Rightarrow> digest \<Rightarrow> nat \<Rightarrow> bool" where
  "table_holds mode hash_table h N =
     (case hash_table h of None \<Rightarrow> N = 0 | Some b \<Rightarrow> 0 < N \<and> bucket_holds mode b N)"

text \<open>
  All graphlets that \<^verbatim>\<open>build_hash_table\<close> hashes for a list of graphs, in the
  order in which it hashes them.
\<close>

definition graphlets_of ::
  "('n graph \<Rightarrow> 'n graph) \<Rightarrow> bool \<Rightarrow> nat \<Rightarrow> bool \<Rightarrow> 'n graph list \<Rightarrow> 'n graph list" where
  "graphlets_of to_undirected graphlets graphlet_size directed graphlist =
     concat (map (\<lambda>g. todo_list graphlets graphlet_size (if \<not> directed then to_undirected g else g))
       graphlist)"

text \<open>A double that is not negative: \<^verbatim>\<open>d >= 0\<close> holds, which it does not for NaN.\<close>

definition nonneg :: "double \<Rightarrow> bool" where
  "nonneg d = (case d of Fin x \<Rightarrow> 0 \<le> x | PInf \<Rightarrow> True | NInf \<Rightarrow> False | NaN \<Rightarrow> False)"

text \<open>The cached scalar of an ordered pair: \<^verbatim>\<open>GED_table[a][b]\<close> if it is there.\<close>

definition ged_entry :: "ged_table \<Rightarrow> digest \<Rightarrow> digest \<Rightarrow> double option" where
  "ged_entry GED_table a b = (case rows GED_table a of None \<Rightarrow> None | Some r \<Rightarrow> r b)"

text \<open>
  The arguments of one call, and the table after a sequence of calls made one after
  the other on the same table, whatever each of them returns or raises.
\<close>

record 'n ged_args =
  arg_ged :: "'n graph \<Rightarrow> 'n graph \<Rightarrow> nat \<Rightarrow> error + double"
  arg_h_G :: digest
  arg_h_H :: digest
  arg_graphlet_table :: "'n hash_table"
  arg_normed :: bool
  arg_max_edges :: nat
  arg_beta :: double
  arg_timeout :: nat
  arg_similarity :: bool

definition ged_call :: "ged_table \<Rightarrow> 'n ged_args \<Rightarrow> (error + double) \<times> ged_table \<times> nat" where
  "ged_call GED_table c =
     GED_hashtable_hashed (arg_ged c) (arg_h_G c) (arg_h_H c) GED_table (arg_graphlet_table c)
       (arg_normed c) (arg_max_edges c) (arg_beta c) (arg_timeout c) (arg_similarity c)"

fun ged_calls :: "ged_table \<Rightarrow> 'n ged_args list \<Rightarrow> ged_table" where
  "ged_calls GED_table [] = GED_table"
| "ged_calls GED_table (c # cs) = ged_calls (fst (snd (ged_call GED_table c))) cs"

text \<open>
  The table after the two lookups of lines 208-215 have both failed: a
  \<^verbatim>\<open>defaultdict\<close> has created the rows of \<open>a\<close> and \<open>b\<close> that were missing.
\<close>

definition after_lookups :: "ged_table \<Rightarrow> digest \<Rightarrow> digest \<Rightarrow> ged_table" where
  "after_lookups T a b = snd (try_lookup (snd (try_lookup T a b)) b a)"

text \<open>
  The state of the table once the pair \<open>(a, b)\<close> has been computed: the value is
  under \<open>[a][b]\<close>, and nothing is under \<open>[b][a]\<close> unless the two are the same entry.
\<close>

definition cached_pair :: "ged_table \<Rightarrow> digest \<Rightarrow> digest \<Rightarrow> double \<Rightarrow> bool" where
  "cached_pair T a b v \<longleftrightarrow> ged_entry T a b = Some v \<and> (a = b \<or> ged_entry T b a = None)"

text \<open>
  A node bijection \<open>f\<close> from \<open>G1\<close> to \<open>G2\<close> that preserves node labels and edge
  labels: \<open>f\<close> is one-to-one on the nodes of \<open>G1\<close>, maps them onto the nodes of \<open>G2\<close>,
  a node and its image carry the same label, and the labelled edges of \<open>G2\<close> are the
  images of the labelled edges of \<open>G1\<close>.
\<close>

definition graph_iso :: "('n \<Rightarrow> 'm) \<Rightarrow> 'n graph \<Rightarrow> 'm graph \<Rightarrow> bool" where
  "graph_iso f G1 G2 \<longleftrightarrow>
     inj_on f (set (nodes G1)) \<and>
     f ` set (nodes G1) = set (nodes G2) \<and>
     list_all (\<lambda>n. node_label G2 (f n) = node_label G1 n) (nodes G1) \<and>
     set (edges G2) = (\<lambda>((u, v), l). ((f u, f v), l)) ` set (edges G1)"

text \<open>The digest of a call, or the fact that it raised.\<close>

definition digest_of :: "error + ('n graph \<times> digest) \<Rightarrow> digest option" where
  "digest_of r = (case r of Inl e \<Rightarrow> None | Inr (G, h) \<Rightarrow> Some h)"

text \<open>The total part of \<open>canonicalize\<close>, for the proofs.\<close>

definition canon_total :: "string \<Rightarrow> string" where
  "canon_total label = (if label \<noteq> ''B53'' then hd label # sort (tl label) else label)"

text \<open>
  Two labellings that agree along \<open>f\<close>: both label exactly the nodes of their graph,
  and a node of \<open>G1\<close> and its image have the same label.
\<close>

definition lab_rel ::
  "('n \<Rightarrow> 'm) \<Rightarrow> 'n graph \<Rightarrow> 'm graph \<Rightarrow> 'n labelling \<Rightarrow> 'm labelling \<Rightarrow> bool" where
  "lab_rel f G1 G2 l1 l2 \<longleftrightarrow>
     map fst l1 = nodes G1 \<and> map fst l2 = nodes G2 \<and>
     (\<forall>n \<in> set (nodes G1). map_of l2 (f n) = map_of l1 n)"

text \<open>No two nodes or edges of the object share a dictionary.\<close>

definition obj_unshared :: "'n graph_obj \<Rightarrow> bool" where
  "obj_unshared g \<longleftrightarrow> distinct (map snd (node_refs g) @ map snd (edge_refs g))"

subsection \<open>Example inputs\<close>

text \<open>Two one-node graphs whose nodes carry different labels, and a node with a self-loop.\<close>

definition G_A :: "nat graph" where
  "G_A = \<lparr>nodes = [1], node_label = [1 \<mapsto> ''A''], edges = []\<rparr>"

definition G_U :: "nat graph" where
  "G_U = \<lparr>nodes = [1], node_label = [1 \<mapsto> ''U''], edges = []\<rparr>"

definition G_loop :: "nat graph" where
  "G_loop = \<lparr>nodes = [1], node_label = [1 \<mapsto> ''A''], edges = [((1, 1), Some ''CWW'')]\<rparr>"

text \<open>A graph without nodes.\<close>

definition G_none :: "nat graph" where
  "G_none = \<lparr>nodes = [], node_label = Map.empty, edges = []\<rparr>"

text \<open>
  A graph whose first graphlet hashes and whose second does not: the edge between
  the nodes 2 and 3 carries the empty label, on which \<^verbatim>\<open>label[0]\<close> raises. \<open>G_bad_1\<close>,
  \<open>G_bad_2\<close> and \<open>G_bad_3\<close> are its graphlets of radius 1.
\<close>

definition G_bad :: "nat graph" where
  "G_bad = \<lparr>nodes = [1, 2, 3], node_label = [1 \<mapsto> ''A'', 2 \<mapsto> ''C'', 3 \<mapsto> ''G''],
            edges = [((2, 3), Some '''')]\<rparr>"

definition G_bad_1 :: "nat graph" where
  "G_bad_1 = \<lparr>nodes = [1], node_label = [1 \<mapsto> ''A''], edges = []\<rparr>"

definition G_bad_2 :: "nat graph" where
  "G_bad_2 = \<lparr>nodes = [2, 3], node_label = [2 \<mapsto> ''C'', 3 \<mapsto> ''G''], edges = [((2, 3), Some [])]\<rparr>"

definition G_bad_3 :: "nat graph" where
  "G_bad_3 = \<lparr>nodes = [3], node_label = [3 \<mapsto> ''G''], edges = []\<rparr>"

text \<open>
  Example tables and oracles: an empty \<^verbatim>\<open>defaultdict(dict)\<close>, a plain dictionary
  with two empty rows, a hash table with two buckets, an oracle that returns a constant
  and one that times out, and a call for another pair.
\<close>

definition T_empty :: ged_table where
  "T_empty = \<lparr>default_factory = True, rows = Map.empty\<rparr>"

definition T_plain :: ged_table where
  "T_plain = \<lparr>default_factory = False, rows = [''a'' \<mapsto> Map.empty, ''u'' \<mapsto> Map.empty]\<rparr>"

definition gt_ex :: "nat hash_table" where
  "gt_ex = [''a'' \<mapsto> Count_bucket G_A 1, ''u'' \<mapsto> Count_bucket G_U 1]"

definition ged_const :: "double \<Rightarrow> nat graph \<Rightarrow> nat graph \<Rightarrow> nat \<Rightarrow> error + double" where
  "ged_const d G H timeout = Inr d"

definition ged_timeout :: "nat graph \<Rightarrow> nat graph \<Rightarrow> nat \<Rightarrow> error + double" where
  "ged_timeout G H timeout = Inl OracleTimeoutError"

definition other_call :: "nat ged_args" where
  "other_call = \<lparr>arg_ged = ged_const (Fin 3), arg_h_G = ''u'', arg_h_H = ''u'',
     arg_graphlet_table = gt_ex, arg_normed = False, arg_max_edges = 7, arg_beta = Fin (1 / 2),
     arg_timeout = 60, arg_similarity = False\<rparr>"

text \<open>
  The two graphs of the doctest of \<^verbatim>\<open>Hasher.hash\<close> (lines 69-74), with the residue
  numbers as nodes, and the bijection between them.
\<close>

definition G1_doc :: "nat graph" where
  "G1_doc = \<lparr>nodes = [627, 626, 628], node_label = Map.empty,
     edges = [((627, 626), Some ''B53''), ((626, 627), Some ''B53''),
              ((627, 628), Some ''B53''), ((628, 627), Some ''B53'')]\<rparr>"

definition G2_doc :: "nat graph" where
  "G2_doc = \<lparr>nodes = [654, 655, 656], node_label = Map.empty,
     edges = [((654, 655), Some ''B53''), ((655, 654), Some ''B53''),
              ((655, 656), Some ''B53''), ((656, 655), Some ''B53'')]\<rparr>"

definition relabel :: "nat \<Rightarrow> nat" where
  "relabel n = (if n = 627 then 655 else if n = 626 then 654 else 656)"

text \<open>
  A store with one graph: the nodes 1 and 2 and a base pair between them, read
  \<^verbatim>\<open>'CWH'\<close> from 1 to 2 and \<^verbatim>\<open>'CHW'\<close> from 2 to 1. \<open>ex1\<close> and \<open>ex2\<close> extract
  the graphlets of radius 1 of the two nodes, one after the other; \<open>hx1\<close> and \<open>hx2\<close>
  then hash the first and the second.
\<close>

definition h_ex :: heap where
  "h_ex = \<lparr>cells = (\<lambda>a. None)(0 := Some ''A'', 1 := Some ''U'', 2 := Some ''CWH'', 3 := Some ''CHW''),
           next_free = 4\<rparr>"

definition G_obj :: "nat graph_obj" where
  "G_obj = \<lparr>node_refs = [(1, 0), (2, 1)], edge_refs = [((1, 2), 2), ((2, 1), 3)]\<rparr>"

definition ex1 :: "heap \<times> nat graph_obj" where
  "ex1 = extract_graphlet_obj h_ex G_obj 1 1"

definition ex2 :: "heap \<times> nat graph_obj" where
  "ex2 = extract_graphlet_obj (fst ex1) G_obj 2 1"

definition hx1 :: "(error + digest) \<times> heap" where
  "hx1 = hash_obj id default_hasher (fst ex2) (snd ex1)"

definition hx2 :: "(error + digest) \<times> heap" where
  "hx2 = hash_obj id default_hasher (snd hx1) (snd ex2)"

section \<open>Properties\<close>

subsection \<open>Canonicalisation\<close>

lemma canonicalize_Inr_fixed:
  assumes "canonicalize l = Inr l'"
  shows "canonicalize l' = Inr l'"
proof (cases "l = ''B53''")
  case True
  with assms show ?thesis by (simp add: canonicalize_def)
next
  case False
  with assms obtain c s where l: "l = c # s" and l': "l' = c # sort s"
    by (auto simp: canonicalize_def split: list.splits)
  show ?thesis
    unfolding l' canonicalize_def by (simp add: sort_key_id_if_sorted)
qed

lemma canonicalize_Inl:
  "canonicalize l = Inl e \<Longrightarrow> l = [] \<and> e = IndexError"
  by (auto simp: canonicalize_def split: if_splits list.splits)

lemma canonicalize_edges_Inr_fixed:
  "canonicalize_edges es = Inr es' \<Longrightarrow> canonicalize_edges es' = Inr es'"
proof (induction es arbitrary: es' rule: canonicalize_edges.induct)
  case 1
  then show ?case by simp
next
  case (2 uv es)
  then show ?case by simp
next
  case (3 uv label es)
  from "3.prems" obtain l' r where l': "canonicalize label = Inr l'"
    and r: "canonicalize_edges es = Inr r" and es': "es' = (uv, Some l') # r"
    by (auto split: sum.splits)
  from "3.IH"[OF l' r] canonicalize_Inr_fixed[OF l'] show ?case
    by (simp add: es')
qed

lemma hash_fixed:
  assumes "hash blake2b self G = Inr (G', h)"
  shows "hash blake2b self G' = Inr (G', h)"
proof (cases "symmetric_edges self")
  case True
  with assms obtain es where es: "canonicalize_edges (edges G) = Inr es"
    and h: "wl blake2b (G\<lparr>edges := es\<rparr>) (wl_hops self) = Inr h" and G': "G' = G\<lparr>edges := es\<rparr>"
    by (auto simp: hash_def split: sum.splits)
  from canonicalize_edges_Inr_fixed[OF es] h show ?thesis
    by (simp add: hash_def True G')
next
  case False
  with assms show ?thesis by (auto simp: hash_def split: sum.splits)
qed

text \<open>
  C6. Canonicalisation is idempotent. A label that canonicalises to \<open>l'\<close> has \<open>l'\<close>
  as its canonical form again; the only label on which the code raises is the empty
  string (IndexError, on the first run already); the backbone label \<^verbatim>\<open>'B53'\<close> is
  left as it is; a second run of the rewriting loop over the edges that the first run
  produced changes no label; and a second call of \<^verbatim>\<open>Hasher.hash\<close> on the graph the
  first call left behind leaves the graph as it is and returns the same digest.
\<close>

theorem canonicalization_idempotent:
  "(canonicalize l = Inr l' \<longrightarrow> canonicalize l' = Inr l') \<and>
   (canonicalize l = Inl e \<longrightarrow> l = [] \<and> e = IndexError) \<and>
   canonicalize ''B53'' = Inr ''B53'' \<and>
   (canonicalize_edges es = Inr es' \<longrightarrow> canonicalize_edges es' = Inr es') \<and>
   (hash blake2b self G = Inr (G', h) \<longrightarrow> hash blake2b self G' = Inr (G', h))"
  using canonicalize_Inr_fixed canonicalize_Inl canonicalize_edges_Inr_fixed hash_fixed
  by (simp add: canonicalize_def) blast

theorem canonicalization_idempotent_witness:
  "canonicalize ''CWH'' = Inr ''CHW'' \<and> canonicalize ''CHW'' = Inr ''CHW'' \<and>
   canonicalize_edges [((1::nat, 2::nat), Some ''CWH''), ((2, 3), Some ''B53'')]
     = Inr [((1, 2), Some ''CHW''), ((2, 3), Some ''B53'')] \<and>
   canonicalize_edges [((1::nat, 2::nat), Some ''CHW''), ((2, 3), Some ''B53'')]
     = Inr [((1, 2), Some ''CHW''), ((2, 3), Some ''B53'')]"
  using canonicalization_idempotent [of "''CWH''" "''CHW''" IndexError
      "[((1::nat, 2::nat), Some ''CWH''), ((2, 3), Some ''B53'')]"
      "[((1, 2), Some ''CHW''), ((2, 3), Some ''B53'')]"]
  by (simp add: canonicalize_def)

subsection \<open>Radius-0 graphlets\<close>

lemma counter_items_single: "counter_items [x] = [(x, 1)]"
  by (simp add: counter_items_def)

lemma WL_step_edges_single:
  assumes "nodes G = [n]" "edges G = []"
  shows "WL_step_edges G [(n, [])] = Inr [(n, [])]"
  using assms by (simp add: WL_step_edges_def nei_agg_edges_def out_edges_def)

lemma wl_loop_single:
  assumes "nodes G = [n]" "edges G = []"
  shows "wl_loop blake2b G k [(n, [])] items = Inr (items @ replicate k (blake2b [], 1))"
proof (induction k arbitrary: items)
  case 0
  show ?case by simp
next
  case (Suc k)
  show ?case
    by (simp add: WL_step_edges_single[OF assms] counter_items_single Suc.IH
        replicate_append_same)
qed

lemma hash_single:
  assumes "nodes G = [n]" "edges G = []"
  shows "hash blake2b self G = Inr (G, blake2b (str_tuple (replicate (wl_hops self) (blake2b [], 1))))"
proof -
  have wl: "wl blake2b G k = Inr (blake2b (str_tuple (replicate k (blake2b [], 1))))" for k
    using wl_loop_single[OF assms, of blake2b k "[]"]
    by (simp add: wl_def init_node_labels_def assms)
  have G: "G\<lparr>edges := []\<rparr> = G" using assms by simp
  show ?thesis
    by (simp add: hash_def assms G wl)
qed

lemma filter_eq_single:
  "distinct xs \<Longrightarrow> n \<in> set xs \<Longrightarrow> filter (\<lambda>m. m = n) xs = [n]"
proof (induction xs)
  case Nil
  then show ?case by simp
next
  case (Cons a xs)
  show ?case
  proof (cases "a = n")
    case True
    with Cons.prems have "n \<notin> set xs" by simp
    then have "filter (\<lambda>m. m = n) xs = []" by (auto simp: filter_empty_conv)
    with True show ?thesis by simp
  next
    case False
    with Cons show ?thesis by simp
  qed
qed

lemma extract_graphlet_0:
  assumes "n \<in> set (nodes G)" "distinct (nodes G)" "(n, n) \<notin> fst ` set (edges G)"
  shows "extract_graphlet G n 0 =
     \<lparr>nodes = [n], node_label = (\<lambda>m. if m = n then node_label G m else None), edges = []\<rparr>"
proof -
  have e: "filter (\<lambda>((u, v), l). u = n \<and> v = n) (edges G) = []"
    using assms(3) by (force simp: filter_empty_conv)
  show ?thesis
    by (simp add: extract_graphlet_def subgraph_copy_def filter_eq_single[OF assms(2,1)] e)
qed

text \<open>
  C2, as the code has it. For a node \<open>n\<close> of \<open>G\<close> without a self-loop,
  \<^verbatim>\<open>extract_graphlet(G, n, size=0)\<close> is the graph with the single node \<open>n\<close>, its
  label and no edge. \<^verbatim>\<open>Hasher.hash\<close> succeeds on it, leaves it as it is, and returns a
  digest in which neither the node nor its label occurs: the digest is the same for
  every one-node graphlet and depends on the iteration count alone (\<^verbatim>\<open>wl\<close> is called
  without \<^verbatim>\<open>node_attr\<close>, so every node starts from the empty label).
\<close>

theorem radius0_graphlet:
  assumes "n \<in> set (nodes G)" "distinct (nodes G)" "(n, n) \<notin> fst ` set (edges G)"
  shows "nodes (extract_graphlet G n 0) = [n] \<and> edges (extract_graphlet G n 0) = [] \<and>
     node_label (extract_graphlet G n 0) n = node_label G n \<and>
     hash blake2b self (extract_graphlet G n 0) =
       Inr (extract_graphlet G n 0,
            blake2b (str_tuple (replicate (wl_hops self) (blake2b [], 1))))"
proof -
  have ne: "nodes (extract_graphlet G n 0) = [n]" "edges (extract_graphlet G n 0) = []"
    by (simp_all add: extract_graphlet_0[OF assms])
  from hash_single[OF ne] ne show ?thesis
    by (simp add: extract_graphlet_0[OF assms])
qed

theorem radius0_graphlet_witness:
  "nodes (extract_graphlet G_A 1 0) = [1] \<and> edges (extract_graphlet G_A 1 0) = [] \<and>
   node_label (extract_graphlet G_A 1 0) 1 = Some ''A'' \<and>
   hash id default_hasher (extract_graphlet G_A 1 0) =
     Inr (extract_graphlet G_A 1 0, str_tuple [([], 1), ([], 1)])"
  using radius0_graphlet [of 1 G_A id default_hasher]
  by (simp add: G_A_def default_hasher_def numeral_2_eq_2)

text \<open>
  Nodes with different labels do not hash differently: the one-node
  graphlets of a node labelled \<^verbatim>\<open>'A'\<close> and of a node labelled \<^verbatim>\<open>'U'\<close> get the same
  digest.
\<close>

theorem radius0_labels_differ_counterexample:
  "node_label (extract_graphlet G_A 1 0) 1 = Some ''A'' \<and>
   node_label (extract_graphlet G_U 1 0) 1 = Some ''U'' \<and>
   map_sum id snd (hash id default_hasher (extract_graphlet G_A 1 0))
     = Inr (str_tuple [([], 1), ([], 1)]) \<and>
   map_sum id snd (hash id default_hasher (extract_graphlet G_U 1 0))
     = Inr (str_tuple [([], 1), ([], 1)])"
  by (simp add: hash_single[where n = 1] extract_graphlet_def subgraph_copy_def G_A_def G_U_def default_hasher_def numeral_2_eq_2)

text \<open>A self-loop at the root is an edge of the induced subgraph, at radius 0 too.\<close>

lemma radius0_self_loop:
  "edges (extract_graphlet G_loop 1 0) = [((1, 1), Some ''CWW'')]"
  by (simp add: extract_graphlet_def subgraph_copy_def G_loop_def)

subsection \<open>Accumulation in the hash table\<close>

lemma table_holds_size: "table_holds mode t h N \<Longrightarrow> table_size t h = N"
  by (auto simp: table_holds_def table_size_def bucket_holds_def bucket_size_def
      split: option.splits if_splits bucket.splits)

lemma add_graphlet_holds:
  assumes "\<And>h. table_holds mode t h (c h)"
  shows "\<exists>t'. add_graphlet mode t n d = Inr t' \<and>
           (\<forall>h. table_holds mode t' h (if h = d then c h + 1 else c h))"
proof -
  have other: "table_holds mode (t(d \<mapsto> b)) h (c h)" if "h \<noteq> d" for h b
    using assms[of h] that by (simp add: table_holds_def)
  show ?thesis
  proof (cases "t d")
    case None
    with assms[of d] have "c d = 0" by (simp add: table_holds_def)
    with None other show ?thesis
      by (auto simp: add_graphlet_def table_holds_def bucket_holds_def)
  next
    case (Some b)
    with assms[of d] have b: "0 < c d" "bucket_holds mode b (c d)"
      by (simp_all add: table_holds_def)
    show ?thesis
    proof (cases b)
      case (Count_bucket g k)
      with b have m: "mode \<noteq> ''append''" "k = c d"
        by (auto simp: bucket_holds_def split: if_splits)
      with Some Count_bucket other show ?thesis
        by (auto simp: add_graphlet_def table_holds_def bucket_holds_def)
    next
      case (Append_bucket gs)
      with b have m: "mode = ''append''" "length gs = c d"
        by (auto simp: bucket_holds_def split: if_splits)
      with Some Append_bucket other show ?thesis
        by (auto simp: add_graphlet_def table_holds_def bucket_holds_def)
    qed
  qed
qed

lemma digest_count_Cons:
  "hash blake2b hasher n = Inr (n', d) \<Longrightarrow>
   digest_count blake2b hasher h (n # ns) =
     (if h = d then digest_count blake2b hasher h ns + 1 else digest_count blake2b hasher h ns)"
  by (auto simp: digest_count_def)

lemma todo_loop_holds:
  assumes "todo_loop blake2b hasher mode t ns = Inr t'"
    and "\<And>h. table_holds mode t h (c h)"
  shows "table_holds mode t' h (c h + digest_count blake2b hasher h ns)"
  using assms
proof (induction ns arbitrary: t c)
  case Nil
  then show ?case by (simp add: digest_count_def)
next
  case (Cons n ns)
  from Cons.prems(1) obtain n' d where hd: "hash blake2b hasher n = Inr (n', d)"
    by (auto split: sum.splits)
  from add_graphlet_holds[of mode t c n' d] Cons.prems(2)
  obtain t1 where t1: "add_graphlet mode t n' d = Inr t1"
    and h1: "\<And>h. table_holds mode t1 h (if h = d then c h + 1 else c h)"
    by blast
  from Cons.prems(1) hd t1 have "todo_loop blake2b hasher mode t1 ns = Inr t'" by simp
  from Cons.IH[OF this, of "\<lambda>h. if h = d then c h + 1 else c h"] h1
  have "table_holds mode t' h ((if h = d then c h + 1 else c h) + digest_count blake2b hasher h ns)"
    by blast
  then show ?case
    by (cases "h = d") (simp_all add: digest_count_Cons[OF hd] add_ac)
qed

lemma todo_loop_append:
  "todo_loop blake2b hasher mode t (xs @ ys) =
     (case todo_loop blake2b hasher mode t xs of
        Inl et \<Rightarrow> Inl et
      | Inr t' \<Rightarrow> todo_loop blake2b hasher mode t' ys)"
  by (induction xs arbitrary: t) (auto split: sum.splits)

lemma graph_loop_flat:
  "graph_loop blake2b to_undirected hasher graphlets graphlet_size mode directed t graphlist =
   todo_loop blake2b hasher mode t
     (graphlets_of to_undirected graphlets graphlet_size directed graphlist)"
proof (induction graphlist arbitrary: t)
  case Nil
  show ?case by (simp add: graphlets_of_def)
next
  case (Cons g gs)
  have "graphlets_of to_undirected graphlets graphlet_size directed (g # gs) =
      todo_list graphlets graphlet_size (if \<not> directed then to_undirected g else g) @
      graphlets_of to_undirected graphlets graphlet_size directed gs"
    by (simp add: graphlets_of_def)
  with Cons.IH show ?case
    by (cases directed) (simp_all add: todo_loop_append Let_def split: sum.splits)
qed

lemma todo_loop_prefix:
  assumes "todo_loop blake2b hasher mode t ns = Inr t'"
  shows "\<exists>tk. todo_loop blake2b hasher mode t (take k ns) = Inr tk \<and>
               todo_loop blake2b hasher mode tk (drop k ns) = Inr t'"
proof -
  have "todo_loop blake2b hasher mode t (take k ns @ drop k ns) = Inr t'"
    using assms by simp
  then show ?thesis
    unfolding todo_loop_append by (auto split: sum.splits)
qed

lemma digest_count_append:
  "digest_count blake2b hasher h (xs @ ys) =
     digest_count blake2b hasher h xs + digest_count blake2b hasher h ys"
  by (simp add: digest_count_def)

lemma empty_holds: "table_holds mode Map.empty h 0"
  by (simp add: table_holds_def)

lemma build_hash_table_flat:
  "build_hash_table blake2b to_undirected graph_dir hasher graphlets max_graphs graphlet_size
     mode directed = Inr table \<longleftrightarrow>
   todo_loop blake2b hasher mode Map.empty
     (graphlets_of to_undirected graphlets graphlet_size directed
        (if max_graphs \<noteq> 0 then py_prefix graph_dir max_graphs else graph_dir)) = Inr table"
  by (simp add: build_hash_table_def graph_loop_flat Let_def split: sum.splits prod.splits)

lemma nodes_G_A: "nodes G_A = [1]" by (simp add: G_A_def)
lemma nodes_G_U: "nodes G_U = [1]" by (simp add: G_U_def)

lemma eg_A: "extract_graphlet G_A 1 2 = G_A"
  by (simp add: extract_graphlet_def subgraph_copy_def G_A_def numeral_2_eq_2 hop_def out_edges_def fun_eq_iff)

lemma eg_U: "extract_graphlet G_U 1 2 = G_U"
  by (simp add: extract_graphlet_def subgraph_copy_def G_U_def numeral_2_eq_2 hop_def out_edges_def fun_eq_iff)

lemma hash_A: "hash id default_hasher G_A = Inr (G_A, str_tuple [([], 1), ([], 1)])"
  by (simp add: hash_single[where n = 1] G_A_def default_hasher_def numeral_2_eq_2)

lemma hash_U: "hash id default_hasher G_U = Inr (G_U, str_tuple [([], 1), ([], 1)])"
  by (simp add: hash_single[where n = 1] G_U_def default_hasher_def numeral_2_eq_2)

lemma build_ex:
  "build_hash_table id id [G_A, G_U] default_hasher True 0 2 ''count'' True =
     Inr [str_tuple [([], 1), ([], 1)] \<mapsto> Count_bucket G_A 2]"
  by (simp add: build_hash_table_def todo_list_def eg_A eg_U hash_A hash_U add_graphlet_def
      nodes_G_A nodes_G_U del: One_nat_def)

text \<open>
  C3. When \<^verbatim>\<open>build_hash_table\<close> returns \<open>table\<close>, let \<open>processed\<close> be the graphlets
  it hashed, in order. For every digest \<open>h\<close> the final table holds exactly the number
  \<open>N\<close> of processed graphlets with digest \<open>h\<close>: no bucket when \<open>N = 0\<close>, and otherwise
  a bucket of the mode's kind with \<^verbatim>\<open>count == N\<close> or \<^verbatim>\<open>len(graphs) == N\<close>. The same
  holds of the table after the first \<open>k\<close> graphlets, for every \<open>k\<close>, and the size of
  the bucket never decreases from an earlier state \<open>j \<le> k\<close> to a later one, nor from
  there to the final table.
\<close>

theorem table_accumulation:
  assumes "build_hash_table blake2b to_undirected graph_dir hasher graphlets max_graphs
             graphlet_size mode directed = Inr table"
    and "processed = graphlets_of to_undirected graphlets graphlet_size directed
             (if max_graphs \<noteq> 0 then py_prefix graph_dir max_graphs else graph_dir)"
    and "j \<le> k"
  shows "table_holds mode table h (digest_count blake2b hasher h processed) \<and>
     (\<exists>tj tk. todo_loop blake2b hasher mode Map.empty (take j processed) = Inr tj \<and>
              todo_loop blake2b hasher mode Map.empty (take k processed) = Inr tk \<and>
              table_holds mode tk h (digest_count blake2b hasher h (take k processed)) \<and>
              table_size tj h \<le> table_size tk h \<and> table_size tk h \<le> table_size table h)"
proof -
  from assms(1,2) have all: "todo_loop blake2b hasher mode Map.empty processed = Inr table"
    by (simp add: build_hash_table_flat)
  from todo_loop_holds[where c = "\<lambda>_. 0", OF all empty_holds]
  have final: "table_holds mode table h (digest_count blake2b hasher h processed)"
    by simp
  from todo_loop_prefix[OF all, of k] obtain tk where
    tk: "todo_loop blake2b hasher mode Map.empty (take k processed) = Inr tk"
    and tk': "todo_loop blake2b hasher mode tk (drop k processed) = Inr table"
    by blast
  from todo_loop_prefix[OF tk, of j] assms(3) obtain tj where
    tj: "todo_loop blake2b hasher mode Map.empty (take j processed) = Inr tj"
    by (auto simp: min_def)
  have hk: "table_holds mode tk h (digest_count blake2b hasher h (take k processed))"
    using todo_loop_holds[where c = "\<lambda>_. 0", OF tk empty_holds] by simp
  have hj: "table_holds mode tj h (digest_count blake2b hasher h (take j processed))"
    using todo_loop_holds[where c = "\<lambda>_. 0", OF tj empty_holds] by simp
  have "take k processed = take j processed @ drop j (take k processed)"
    using assms(3) by (metis append_take_drop_id min.absorb2 take_take min.commute)
  then have le1: "digest_count blake2b hasher h (take j processed)
       \<le> digest_count blake2b hasher h (take k processed)"
    by (metis digest_count_append le_add1)
  have "digest_count blake2b hasher h processed =
     digest_count blake2b hasher h (take k processed) + digest_count blake2b hasher h (drop k processed)"
    by (metis digest_count_append append_take_drop_id)
  then have le2: "digest_count blake2b hasher h (take k processed)
       \<le> digest_count blake2b hasher h processed"
    by simp
  from final hk hj le1 le2 tj tk show ?thesis
    by (auto simp: table_holds_size)
qed

theorem table_accumulation_witness:
  "build_hash_table id id [G_A, G_U] default_hasher True 0 2 ''count'' True =
     Inr [str_tuple [([], 1), ([], 1)] \<mapsto> Count_bucket G_A 2] \<and>
   digest_count id default_hasher (str_tuple [([], 1), ([], 1)]) [G_A, G_U] = 2 \<and>
   table_holds ''count'' [str_tuple [([], 1), ([], 1)] \<mapsto> Count_bucket G_A 2]
     (str_tuple [([], 1), ([], 1)]) 2"
proof -
  have p: "[G_A, G_U] = graphlets_of id True 2 True (if (0::int) \<noteq> 0 then py_prefix [G_A, G_U] 0 else [G_A, G_U])"
    by (simp add: graphlets_of_def todo_list_def eg_A eg_U nodes_G_A nodes_G_U del: One_nat_def)
  have c: "digest_count id default_hasher (str_tuple [([], 1), ([], 1)]) [G_A, G_U] = 2"
    by (simp add: digest_count_def hash_A hash_U)
  from table_accumulation[OF build_ex p, of 1 2 "str_tuple [([], 1), ([], 1)]"] build_ex c
  show ?thesis by simp
qed

subsection \<open>Failure during construction\<close>

lemma todo_loop_Inl:
  assumes "todo_loop blake2b hasher mode t ns = Inl (e, t')"
  shows "\<exists>k<length ns. todo_loop blake2b hasher mode t (take k ns) = Inr t' \<and>
      (hash blake2b hasher (ns ! k) = Inl e \<or>
       (\<exists>n' d. hash blake2b hasher (ns ! k) = Inr (n', d) \<and> add_graphlet mode t' n' d = Inl e))"
  using assms
proof (induction ns arbitrary: t)
  case Nil
  then show ?case by simp
next
  case (Cons n ns)
  show ?case
  proof (cases "hash blake2b hasher n")
    case (Inl e')
    with Cons.prems have "e' = e" "t' = t" by simp_all
    with Inl show ?thesis by (intro exI[of _ 0]) simp
  next
    case (Inr p)
    then obtain n' d where hd: "hash blake2b hasher n = Inr (n', d)" by (cases p) auto
    show ?thesis
    proof (cases "add_graphlet mode t n' d")
      case (Inl e')
      with Cons.prems hd have "e' = e" "t' = t" by simp_all
      with Inl hd show ?thesis by (intro exI[of _ 0]) simp
    next
      case (Inr t1)
      with Cons.prems hd have "todo_loop blake2b hasher mode t1 ns = Inl (e, t')" by simp
      from Cons.IH[OF this] obtain k where k: "k < length ns"
        "todo_loop blake2b hasher mode t1 (take k ns) = Inr t'"
        "hash blake2b hasher (ns ! k) = Inl e \<or>
          (\<exists>n' d. hash blake2b hasher (ns ! k) = Inr (n', d) \<and> add_graphlet mode t' n' d = Inl e)"
        by blast
      with hd Inr show ?thesis by (intro exI[of _ "Suc k"]) simp
    qed
  qed
qed

lemma graph_loop_Inl:
  assumes "graph_loop blake2b to_undirected hasher graphlets graphlet_size mode directed t graphlist
             = Inl (e, t')"
  shows "\<exists>pre g post t_pre. graphlist = pre @ g # post \<and>
     graph_loop blake2b to_undirected hasher graphlets graphlet_size mode directed t pre = Inr t_pre \<and>
     todo_loop blake2b hasher mode t_pre
       (todo_list graphlets graphlet_size (if \<not> directed then to_undirected g else g)) = Inl (e, t')"
  using assms
proof (induction graphlist arbitrary: t)
  case Nil
  then show ?case by simp
next
  case (Cons g gs)
  let ?G = "if \<not> directed then to_undirected g else g"
  show ?case
  proof (cases "todo_loop blake2b hasher mode t (todo_list graphlets graphlet_size ?G)")
    case (Inl et)
    with Cons.prems have "et = (e, t')" by (simp add: Let_def)
    with Inl show ?thesis
      by (intro exI[of _ "[]"] exI[of _ g] exI[of _ gs] exI[of _ t]) simp
  next
    case (Inr t1)
    with Cons.prems have "graph_loop blake2b to_undirected hasher graphlets graphlet_size mode
        directed t1 gs = Inl (e, t')"
      by (simp add: Let_def)
    from Cons.IH[OF this] obtain pre g' post t_pre where p: "gs = pre @ g' # post"
      "graph_loop blake2b to_undirected hasher graphlets graphlet_size mode directed t1 pre = Inr t_pre"
      "todo_loop blake2b hasher mode t_pre
         (todo_list graphlets graphlet_size (if \<not> directed then to_undirected g' else g')) = Inl (e, t')"
      by blast
    with Inr show ?thesis
      by (intro exI[of _ "g # pre"] exI[of _ g'] exI[of _ post] exI[of _ t_pre]) (simp add: Let_def)
  qed
qed

text \<open>
  C8, as the code has it. \<^verbatim>\<open>build_hash_table\<close> has no exception handling: when
  the loop fails, the function returns the exception and no table. The failure is the
  failure of \<^verbatim>\<open>hasher.hash\<close> on a graphlet \<open>k\<close> of a graph \<open>g\<close>. The table
  \<open>t_pre\<close> built from the graphs before \<open>g\<close> holds their graphlets; the local table
  \<open>t\<close> at the moment of the exception holds, for every digest, those and the graphlets
  of \<open>g\<close> that were hashed before the failing one.
\<close>

theorem build_failure_state:
  assumes "graph_loop blake2b to_undirected hasher graphlets graphlet_size mode directed
             Map.empty graphlist = Inl (e, t)"
    and "graphlist = (if max_graphs \<noteq> 0 then py_prefix graph_dir max_graphs else graph_dir)"
  shows "build_hash_table blake2b to_undirected graph_dir hasher graphlets max_graphs graphlet_size
       mode directed = Inl e \<and>
     (\<exists>pre g post t_pre k.
        graphlist = pre @ g # post \<and>
        graph_loop blake2b to_undirected hasher graphlets graphlet_size mode directed
          Map.empty pre = Inr t_pre \<and>
        k < length (todo_list graphlets graphlet_size (if \<not> directed then to_undirected g else g)) \<and>
        hash blake2b hasher
          (todo_list graphlets graphlet_size (if \<not> directed then to_undirected g else g) ! k) = Inl e \<and>
        (\<forall>h. table_holds mode t_pre h
               (digest_count blake2b hasher h
                  (graphlets_of to_undirected graphlets graphlet_size directed pre))) \<and>
        (\<forall>h. table_holds mode t h
               (digest_count blake2b hasher h
                  (graphlets_of to_undirected graphlets graphlet_size directed pre) +
                digest_count blake2b hasher h
                  (take k (todo_list graphlets graphlet_size
                     (if \<not> directed then to_undirected g else g))))))"
proof -
  have b: "build_hash_table blake2b to_undirected graph_dir hasher graphlets max_graphs
      graphlet_size mode directed = Inl e"
    using assms by (simp add: build_hash_table_def Let_def)
  from graph_loop_Inl[OF assms(1)] obtain pre g post t_pre where
    gl: "graphlist = pre @ g # post"
    and pre: "graph_loop blake2b to_undirected hasher graphlets graphlet_size mode directed
        Map.empty pre = Inr t_pre"
    and fail: "todo_loop blake2b hasher mode t_pre
       (todo_list graphlets graphlet_size (if \<not> directed then to_undirected g else g)) = Inl (e, t)"
    by blast
  let ?todo = "todo_list graphlets graphlet_size (if \<not> directed then to_undirected g else g)"
  let ?pre = "graphlets_of to_undirected graphlets graphlet_size directed pre"
  from todo_loop_Inl[OF fail] obtain k where k: "k < length ?todo"
    and tk: "todo_loop blake2b hasher mode t_pre (take k ?todo) = Inr t"
    and why: "hash blake2b hasher (?todo ! k) = Inl e \<or>
       (\<exists>n' d. hash blake2b hasher (?todo ! k) = Inr (n', d) \<and> add_graphlet mode t n' d = Inl e)"
    by blast
  have hpre: "table_holds mode t_pre h (digest_count blake2b hasher h ?pre)" for h
    using todo_loop_holds[where c = "\<lambda>_. 0", OF pre[unfolded graph_loop_flat] empty_holds]
    by simp
  have ht: "table_holds mode t h
      (digest_count blake2b hasher h ?pre + digest_count blake2b hasher h (take k ?todo))" for h
    using todo_loop_holds[where c = "\<lambda>h. digest_count blake2b hasher h ?pre", OF tk hpre] .
  have "hash blake2b hasher (?todo ! k) = Inl e"
  proof (rule ccontr)
    assume "hash blake2b hasher (?todo ! k) \<noteq> Inl e"
    with why obtain n' d where "add_graphlet mode t n' d = Inl e" by blast
    moreover from add_graphlet_holds[where c = "\<lambda>h. digest_count blake2b hasher h ?pre
        + digest_count blake2b hasher h (take k ?todo)", OF ht]
    obtain t2 where "add_graphlet mode t n' d = Inr t2" by blast
    ultimately show False by simp
  qed
  with b gl pre k hpre ht show ?thesis by blast
qed

lemma eg_A1: "todo_list True 1 G_A = [G_A]"
  by (simp add: todo_list_def extract_graphlet_def subgraph_copy_def G_A_def hop_def out_edges_def fun_eq_iff)

lemma eg_bad: "todo_list True 1 G_bad = [G_bad_1, G_bad_2, G_bad_3]"
  by (auto simp: todo_list_def extract_graphlet_def subgraph_copy_def G_bad_def hop_def
      out_edges_def fun_eq_iff G_bad_1_def G_bad_2_def G_bad_3_def)

lemma hash_bad_1: "hash id default_hasher G_bad_1 = Inr (G_bad_1, str_tuple [([], 1), ([], 1)])"
  by (simp add: hash_single[where n = 1] G_bad_1_def default_hasher_def numeral_2_eq_2)

lemma hash_bad_2: "hash id default_hasher G_bad_2 = Inl IndexError"
  by (simp add: hash_def G_bad_2_def default_hasher_def canonicalize_def)

lemma loop_A: "graph_loop id id default_hasher True 1 ''count'' True Map.empty [G_A] =
     Inr [str_tuple [([], 1), ([], 1)] \<mapsto> Count_bucket G_A 1]"
  by (simp add: eg_A1 hash_A add_graphlet_def del: One_nat_def)

lemma loop_A_bad: "graph_loop id id default_hasher True 1 ''count'' True Map.empty [G_A, G_bad] =
     Inl (IndexError, [str_tuple [([], 1), ([], 1)] \<mapsto> Count_bucket G_A 2])"
  by (simp add: eg_A1 eg_bad hash_A hash_bad_1 hash_bad_2 add_graphlet_def del: One_nat_def)

text \<open>
  The partial state of the failed graph is neither excluded nor marked.
  After \<open>G_A\<close> its bucket has count 1; \<open>G_bad\<close> fails on its second graphlet, when
  its first has already been counted in the same bucket (count 2, nothing marks it);
  and the caller receives the exception, not a table.
\<close>

theorem build_failure_counterexample:
  "graph_loop id id default_hasher True 1 ''count'' True Map.empty [G_A] =
     Inr [str_tuple [([], 1), ([], 1)] \<mapsto> Count_bucket G_A 1] \<and>
   graph_loop id id default_hasher True 1 ''count'' True Map.empty [G_A, G_bad] =
     Inl (IndexError, [str_tuple [([], 1), ([], 1)] \<mapsto> Count_bucket G_A 2]) \<and>
   build_hash_table id id [G_A, G_bad] default_hasher True 0 1 ''count'' True = Inl IndexError"
  by (simp add: loop_A loop_A_bad build_hash_table_def del: One_nat_def graph_loop.simps)

theorem build_failure_state_witness:
  "graph_loop id id default_hasher True 1 ''count'' True Map.empty [G_A, G_bad] =
     Inl (IndexError, [str_tuple [([], 1), ([], 1)] \<mapsto> Count_bucket G_A 2]) \<and>
   build_hash_table id id [G_A, G_bad] default_hasher True 0 1 ''count'' True = Inl IndexError"
  using build_failure_state [OF loop_A_bad, of 0 "[G_A, G_bad]"] loop_A_bad
  by simp

subsection \<open>Rounding\<close>

lemma ulp_pos: "0 < ulp x" by (simp add: ulp_def)

lemma rhe_int: "round_half_even (of_int k) = k"
  by (simp add: round_half_even_def)

lemma rhe_cases: "round_half_even q = \<lfloor>q\<rfloor> \<or> (round_half_even q = \<lfloor>q\<rfloor> + 1 \<and> of_int \<lfloor>q\<rfloor> < q)"
  by (auto simp: round_half_even_def Let_def)

lemma rhe_le:
  assumes "q \<le> of_int N"
  shows "round_half_even q \<le> N"
proof -
  have "q < of_int N + 1" using assms by simp
  then have le: "\<lfloor>q\<rfloor> \<le> N" by (simp only: floor_le_iff)
  from rhe_cases[of q] show ?thesis
  proof
    assume "round_half_even q = \<lfloor>q\<rfloor>"
    with le show ?thesis by simp
  next
    assume up: "round_half_even q = \<lfloor>q\<rfloor> + 1 \<and> of_int \<lfloor>q\<rfloor> < q"
    with assms have "(of_int \<lfloor>q\<rfloor> :: real) < of_int N" by linarith
    then have "\<lfloor>q\<rfloor> < N" by (simp only: of_int_less_iff)
    with up show ?thesis by simp
  qed
qed

lemma rhe_ge:
  assumes "of_int N \<le> q"
  shows "N \<le> round_half_even q"
proof -
  from assms have "N \<le> \<lfloor>q\<rfloor>" by (simp only: le_floor_iff)
  with rhe_cases[of q] show ?thesis by auto
qed

lemma two_powi_less_iff: "(2::real) powi m < 2 powi n \<longleftrightarrow> m < n"
proof
  assume "(2::real) powi m < 2 powi n"
  show "m < n"
  proof (rule ccontr)
    assume "\<not> m < n"
    then have "n \<le> m" by simp
    then have "(2::real) powi n \<le> 2 powi m" by (intro power_int_increasing) auto
    with \<open>(2::real) powi m < 2 powi n\<close> show False by simp
  qed
next
  assume "m < n" then show "(2::real) powi m < 2 powi n"
    by (intro power_int_strict_increasing) auto
qed

lemma two_powi_le_iff: "(2::real) powi m \<le> 2 powi n \<longleftrightarrow> m \<le> n"
  using two_powi_less_iff[of n m] by (simp add: not_less[symmetric])

lemma two_powr_int: "(2::real) powr (of_int k) = 2 powi k"
  by (rule powr_real_of_int') simp_all

lemma floor_log2_eq:
  assumes "2 powi e \<le> x" "x < 2 powi (e + 1)"
  shows "\<lfloor>log 2 x\<rfloor> = e"
proof -
  have "(0::real) < 2 powi e" by simp
  with assms(1) have pos: "0 < x" by linarith
  have "2 powr (of_int e) \<le> x" "x < 2 powr (of_int (e + 1))"
    using assms by (simp_all only: two_powr_int)
  moreover have "(1::real) < 2" by simp
  ultimately show ?thesis using pos floor_log_eq_powr_iff[of x 2 e] by blast
qed

lemma exponent_eq:
  assumes "2 powi e \<le> \<bar>x\<bar>" "\<bar>x\<bar> < 2 powi (e + 1)" "emin \<le> e"
  shows "exponent x = e"
proof -
  have "2 powi emin \<le> (2::real) powi e" using assms(3) by (intro power_int_increasing) auto
  with assms(1) have nlt: "\<not> \<bar>x\<bar> < 2 powi emin" by linarith
  from floor_log2_eq[OF assms(1,2)] nlt show ?thesis by (simp add: exponent_def)
qed

lemma exponent_small: "\<bar>x\<bar> < 2 powi emin \<Longrightarrow> exponent x = emin"
  by (simp add: exponent_def)

lemma exponent_bounds:
  assumes "2 powi emin \<le> \<bar>x\<bar>"
  shows "2 powi (exponent x) \<le> \<bar>x\<bar>" "\<bar>x\<bar> < 2 powi (exponent x + 1)"
proof -
  have "(0::real) < 2 powi emin" by simp
  with assms have pos: "0 < \<bar>x\<bar>" by linarith
  have e: "exponent x = \<lfloor>log 2 \<bar>x\<bar>\<rfloor>" using assms by (simp add: exponent_def)
  have "(1::real) < 2" by simp
  with floor_log_eq_powr_iff[of "\<bar>x\<bar>" 2 "exponent x"] pos e
  have "2 powr (of_int (exponent x)) \<le> \<bar>x\<bar> \<and> \<bar>x\<bar> < 2 powr (of_int (exponent x + 1))"
    by metis
  then have "2 powr (of_int (exponent x)) \<le> \<bar>x\<bar>" "\<bar>x\<bar> < 2 powr (of_int (exponent x + 1))"
    by blast+
  then show "2 powi (exponent x) \<le> \<bar>x\<bar>" "\<bar>x\<bar> < 2 powi (exponent x + 1)"
    by (simp_all only: two_powr_int)
qed

lemma exponent_ge: "emin \<le> exponent x"
proof (cases "\<bar>x\<bar> < 2 powi emin")
  case True then show ?thesis by (simp add: exponent_def)
next
  case False
  then have 1: "2 powi emin \<le> \<bar>x\<bar>" by simp
  from exponent_bounds(2)[OF 1] 1 have "(2::real) powi emin < 2 powi (exponent x + 1)" by linarith
  then have "emin < exponent x + 1" by (simp only: two_powi_less_iff)
  then show ?thesis by simp
qed


lemma rhe_nearest_even:
  assumes "even N" "of_int N - 1 / 2 \<le> q" "q \<le> of_int N + 1 / 2"
  shows "round_half_even q = N"
proof -
  have "\<lfloor>q\<rfloor> = N - 1 \<or> \<lfloor>q\<rfloor> = N"
  proof -
    have "of_int (N - 1) \<le> q" using assms(2) by simp
    then have 1: "N - 1 \<le> \<lfloor>q\<rfloor>" by (simp only: le_floor_iff)
    have "q < of_int (N + 1)" using assms(3) by simp
    then have "\<lfloor>q\<rfloor> < N + 1" by (simp only: floor_less_iff)
    with 1 show ?thesis by linarith
  qed
  then show ?thesis
  proof
    assume f: "\<lfloor>q\<rfloor> = N - 1"
    have odd: "odd (N - 1)" using assms(1) by simp
    have "1 / 2 \<le> q - of_int (N - 1)" using assms(2) by simp
    with f odd show ?thesis by (auto simp: round_half_even_def Let_def)
  next
    assume f: "\<lfloor>q\<rfloor> = N"
    have "q - of_int N \<le> 1 / 2" using assms(3) by simp
    with f assms(1) show ?thesis by (auto simp: round_half_even_def Let_def)
  qed
qed

lemma two_powi_nat: "0 \<le> k \<Longrightarrow> (2::real) powi k = of_int (2 ^ nat k)"
  by (simp add: power_int_def)

lemma two_powi_add: "(2::real) powi (m + n) = 2 powi m * 2 powi n"
  by (rule power_int_add) simp

lemma two_powi_diff: "(2::real) powi (m - n) = 2 powi m / 2 powi n"
  by (rule power_int_diff) simp

text \<open>Representable numbers are not changed.\<close>

lemma round_double_exact:
  assumes x: "x = of_int m * 2 powi e" and m: "\<bar>m\<bar> < 2 ^ 53"
    and e: "emin - 52 \<le> e" "e \<le> emax - 52"
  shows "round_double x = Fin x"
proof -
  have absx: "\<bar>x\<bar> = of_int \<bar>m\<bar> * 2 powi e" by (simp add: x abs_mult)
  have "(of_int \<bar>m\<bar> :: real) < of_int (2 ^ 53)" using m by (simp only: of_int_less_iff)
  then have m': "(of_int \<bar>m\<bar> :: real) < 2 powi 53" by (simp add: two_powi_nat)
  have lt: "\<bar>x\<bar> < 2 powi (53 + e)"
    unfolding absx two_powi_add using m' by (simp add: mult_strict_right_mono)
  have E: "exponent x - 52 \<le> e"
  proof (cases "\<bar>x\<bar> < 2 powi emin")
    case True
    with e(1) show ?thesis by (simp add: exponent_small)
  next
    case False
    then have "2 powi emin \<le> \<bar>x\<bar>" by simp
    from exponent_bounds(1)[OF this] lt have "(2::real) powi exponent x < 2 powi (53 + e)"
      by linarith
    then have "exponent x < 53 + e" by (simp only: two_powi_less_iff)
    then show ?thesis by simp
  qed
  define k where "k = e - (exponent x - 52)"
  define u where "u = ulp x"
  have upos: "0 < u" by (simp add: u_def ulp_pos)
  have k: "0 \<le> k" using E by (simp add: k_def)
  have "2 powi e = (2::real) powi (k + (exponent x - 52))" by (simp add: k_def)
  also have "\<dots> = 2 powi k * u" by (simp only: two_powi_add ulp_def u_def)
  finally have pe: "2 powi e = of_int (2 ^ nat k) * u" by (simp only: two_powi_nat[OF k])
  have xu: "x = of_int (m * 2 ^ nat k) * u" by (simp add: x pe)
  then have q: "x / u = of_int (m * 2 ^ nat k)" using upos by simp
  have "of_int (round_half_even (x / u)) * u = x"
    unfolding q rhe_int using xu by simp
  then have y: "of_int (round_half_even (x / ulp x)) * ulp x = x" by (simp only: u_def)
  have "53 + e \<le> emax + 1" using e(2) by simp
  then have "(2::real) powi (53 + e) \<le> 2 powi (emax + 1)" by (simp only: two_powi_le_iff)
  with lt have "\<not> 2 powi (emax + 1) \<le> \<bar>x\<bar>" by linarith
  then show ?thesis by (simp add: round_double_def y del: power_int_add_numeral power_int_add_numeral2)
qed


lemma round_double_0: "round_double 0 = Fin 0"
  using round_double_exact[of 0 0 0] by (simp add: emin_def emax_def)

lemma round_double_1: "round_double 1 = Fin 1"
  using round_double_exact[of 1 1 0] by (simp add: emin_def emax_def)

text \<open>The sign is kept.\<close>

lemma round_double_nonpos:
  assumes "x \<le> 0"
  shows "round_double x = NInf \<or> (\<exists>y. round_double x = Fin y \<and> y \<le> 0)"
proof -
  have "x / ulp x \<le> of_int 0" using assms ulp_pos[of x] by (simp add: divide_nonpos_pos)
  then have "round_half_even (x / ulp x) \<le> 0" by (rule rhe_le)
  then have "of_int (round_half_even (x / ulp x)) * ulp x \<le> 0"
    using ulp_pos[of x] by (simp add: mult_le_0_iff)
  then show ?thesis by (auto simp: round_double_def Let_def)
qed

text \<open>
  Rounding does not cross a number of the grid of \<open>x\<close>: a multiple of \<open>ulp x\<close>.
\<close>

lemma round_double_le_grid:
  assumes "0 \<le> x" "x \<le> of_int N * ulp x" "of_int N * ulp x < 2 powi (emax + 1)"
  shows "\<exists>y. round_double x = Fin y \<and> 0 \<le> y \<and> y \<le> of_int N * ulp x"
proof -
  define u where "u = ulp x"
  have upos: "0 < u" by (simp add: u_def ulp_pos)
  define r where "r = round_half_even (x / u)"
  have "of_int 0 \<le> x / u" using assms(1) upos by simp
  then have r0: "0 \<le> r" unfolding r_def by (rule rhe_ge)
  have "x / u \<le> of_int N" using assms(2) upos by (simp add: u_def pos_divide_le_eq)
  then have rN: "r \<le> N" unfolding r_def by (rule rhe_le)
  have y0: "0 \<le> of_int r * u" using r0 upos by simp
  have "(of_int r :: real) \<le> of_int N" using rN by simp
  then have yN: "of_int r * u \<le> of_int N * u" using upos by (simp add: mult_right_mono)
  with assms(3) y0 have "\<not> 2 powi (emax + 1) \<le> \<bar>of_int r * u\<bar>" by (simp add: u_def)
  then have "round_double x = Fin (of_int r * u)"
    by (simp add: round_double_def r_def u_def Let_def
        del: power_int_add_numeral power_int_add_numeral2)
  with y0 yN show ?thesis by (simp add: u_def)
qed

lemma exponent_le:
  assumes "\<bar>x\<bar> \<le> 2 powi k" "emin \<le> k"
  shows "exponent x \<le> k"
proof (cases "\<bar>x\<bar> < 2 powi emin")
  case True with assms(2) show ?thesis by (simp add: exponent_small)
next
  case False
  then have "2 powi emin \<le> \<bar>x\<bar>" by simp
  from exponent_bounds(1)[OF this] assms(1) have "(2::real) powi exponent x \<le> 2 powi k" by simp
  then show ?thesis by (simp only: two_powi_le_iff)
qed

text \<open>Rounding does not cross a power of two.\<close>

lemma round_double_le_pow2:
  assumes "0 \<le> x" "x \<le> 2 powi k" "emin \<le> k" "k \<le> emax"
  shows "\<exists>y. round_double x = Fin y \<and> 0 \<le> y \<and> y \<le> 2 powi k"
proof -
  have "exponent x \<le> k" using assms by (intro exponent_le) simp_all
  then have n: "0 \<le> k + 52 - exponent x" by simp
  have "(2::real) powi k = 2 powi ((k + 52 - exponent x) + (exponent x - 52))" by simp
  also have "\<dots> = 2 powi (k + 52 - exponent x) * ulp x" by (simp only: two_powi_add ulp_def)
  finally have c: "2 powi k = of_int (2 ^ nat (k + 52 - exponent x)) * ulp x"
    by (simp only: two_powi_nat[OF n])
  have "k < emax + 1" using assms(4) by simp
  then have lt: "(2::real) powi k < 2 powi (emax + 1)" by (simp only: two_powi_less_iff)
  from assms(2) have 1: "x \<le> of_int (2 ^ nat (k + 52 - exponent x)) * ulp x"
    by (simp only: c[symmetric])
  from lt have 2: "of_int (2 ^ nat (k + 52 - exponent x)) * ulp x < 2 powi (emax + 1)"
    by (simp only: c[symmetric])
  from round_double_le_grid[OF assms(1) 1 2] show ?thesis by (simp only: c[symmetric])
qed

text \<open>A number of the unit interval is rounded into the unit interval.\<close>

lemma round_double_unit:
  assumes "0 \<le> x" "x \<le> 1"
  shows "\<exists>y. round_double x = Fin y \<and> 0 \<le> y \<and> y \<le> 1"
  using round_double_le_pow2[of x 0] assms by (simp add: emin_def emax_def)

text \<open>Below half of the least positive double, a number is rounded to zero.\<close>

lemma round_double_underflow:
  assumes "\<bar>x\<bar> \<le> 2 powi (emin - 53)"
  shows "round_double x = Fin 0"
proof -
  have "emin - 53 < emin" by simp
  then have "(2::real) powi (emin - 53) < 2 powi emin" by (simp only: two_powi_less_iff)
  with assms have "\<bar>x\<bar> < 2 powi emin" by linarith
  then have E: "exponent x = emin" by (rule exponent_small)
  define u where "u = (2::real) powi (emin - 52)"
  have upos: "0 < u" by (simp add: u_def)
  have ulp: "ulp x = u" by (simp add: ulp_def E u_def)
  have "(2::real) powi (emin - 53) = 2 powi ((emin - 52) + (- 1))" by simp
  also have "\<dots> = u * 2 powi (- 1)" by (simp only: two_powi_add u_def)
  also have "\<dots> = u / 2" by simp
  finally have half: "2 powi (emin - 53) = u / 2" .
  from assms have "\<bar>x\<bar> \<le> u / 2" by (simp only: half)
  then have "- (u / 2) \<le> x" "x \<le> u / 2" by linarith+
  then have "of_int 0 - 1 / 2 \<le> x / u" "x / u \<le> of_int 0 + 1 / 2"
    using upos by (simp_all add: field_simps)
  with rhe_nearest_even[of 0 "x / u"] have "round_half_even (x / u) = 0" by simp
  then have y: "of_int (round_half_even (x / ulp x)) * ulp x = 0" by (simp add: ulp)
  have "(0::real) < 2 powi (emax + 1)" by simp
  then have "\<not> 2 powi (emax + 1) \<le> \<bar>0::real\<bar>" by (simp only: abs_zero not_le)
  then show ?thesis unfolding round_double_def Let_def y by (simp only: if_False)
qed

text \<open>From half an ulp below 1 up to 1, a number is rounded to 1.\<close>

lemma round_double_near_1:
  assumes "1 - 2 powi (- 54) \<le> x" "x \<le> 1"
  shows "round_double x = Fin 1"
proof (cases "x = 1")
  case True then show ?thesis by (simp add: round_double_1)
next
  case False
  with assms(2) have x1: "x < 1" by simp
  have "(- 54 :: int) \<le> - 1" by simp
  then have "(2::real) powi (- 54) \<le> 2 powi (- 1)" by (simp only: two_powi_le_iff)
  then have "(2::real) powi (- 54) \<le> 1 / 2" by simp
  with assms(1) have xh: "1 / 2 \<le> x" by linarith
  have "exponent x = - 1"
  proof (rule exponent_eq)
    show "2 powi (- 1) \<le> \<bar>x\<bar>" using xh by simp
    show "\<bar>x\<bar> < 2 powi (- 1 + 1)" using xh x1 by simp
    show "emin \<le> - 1" by (simp add: emin_def)
  qed
  define u where "u = (2::real) powi (- 53)"
  from \<open>exponent x = - 1\<close> have ulp: "ulp x = u" by (simp add: ulp_def u_def)
  have upos: "0 < u" by (simp add: u_def)
  have "(2::real) powi (- 54) = 2 powi (- 53 + (- 1))" by simp
  also have "\<dots> = u * 2 powi (- 1)" by (simp only: two_powi_add u_def)
  also have "\<dots> = u / 2" by simp
  finally have half: "2 powi (- 54) = u / 2" .
  have "(1::real) = 2 powi (53 + (- 53))" by simp
  also have "\<dots> = 2 powi 53 * u" by (simp only: two_powi_add u_def)
  finally have one: "1 = of_int (2 ^ 53) * u" by (simp add: two_powi_nat)
  define N :: int where "N = 2 ^ 53"
  have one': "1 = of_int N * u" using one by (simp only: N_def)
  have evenN: "even N" by (simp add: N_def)
  from assms(1) have "of_int N * u - u / 2 \<le> x" by (simp only: half one'[symmetric])
  then have lo: "of_int N - 1 / 2 \<le> x / u" using upos by (simp add: field_simps)
  from assms(2) have "x \<le> of_int N * u" by (simp only: one'[symmetric])
  then have "x / u \<le> of_int N" using upos by (simp add: field_simps)
  then have hi: "x / u \<le> of_int N + 1 / 2" by simp
  from rhe_nearest_even[OF evenN lo hi] have r: "round_half_even (x / u) = N" .
  have y: "of_int (round_half_even (x / ulp x)) * ulp x = 1"
    by (simp only: ulp r one'[symmetric])
  have "\<not> 2 powi (emax + 1) \<le> \<bar>1::real\<bar>"
  proof -
    have "(0::int) < emax + 1" by (simp add: emax_def)
    then have "(2::real) powi 0 < 2 powi (emax + 1)" by (simp only: two_powi_less_iff)
    then show ?thesis by simp
  qed
  then show ?thesis unfolding round_double_def Let_def y by (simp only: if_False)
qed

subsection \<open>The conversions of a distance\<close>

lemma exp_neg_le_pow2:
  fixes x :: real
  assumes x: "x \<le> - of_int (int n)"
  shows "exp x \<le> 2 powi (- int n)"
proof -
  have "(2::real) \<le> exp 1" using exp_ge_add_one_self[of "1::real"] by simp
  then have "(2::real) ^ n \<le> exp 1 ^ n" by (intro power_mono) simp_all
  also have "\<dots> = exp (real n)" using exp_of_nat_mult[of n "1::real"] by simp
  finally have le: "(2::real) ^ n \<le> exp (real n)" .
  have "exp x \<le> exp (- real n)" using x by simp
  also have "\<dots> = inverse (exp (real n))" by (rule exp_minus)
  also have "\<dots> \<le> inverse (2 ^ n)" using le by (intro le_imp_inverse_le) simp_all
  also have "\<dots> = 2 powi (- int n)" by (simp add: power_int_minus)
  finally show ?thesis .
qed

text \<open>Underflow: from \<open>- 1075\<close> downwards the exponential is rounded to zero.\<close>

lemma np_exp_underflow:
  assumes "x \<le> - 1075"
  shows "np_exp (Fin x) = Fin 0"
proof -
  have "exp x \<le> 2 powi (- int 1075)" using assms by (intro exp_neg_le_pow2) simp
  also have "- int 1075 = emin - 53" by (simp add: emin_def)
  finally have "\<bar>exp x\<bar> \<le> 2 powi (emin - 53)" by simp
  then show ?thesis by (simp only: np_exp.simps round_double_underflow)
qed

lemma np_exp_small:
  assumes "x \<le> - 54"
  shows "\<exists>s. np_exp (Fin x) = Fin s \<and> 0 \<le> s \<and> s \<le> 2 powi (- 54)"
proof -
  have "exp x \<le> 2 powi (- int 54)" using assms by (intro exp_neg_le_pow2) simp
  then have "exp x \<le> 2 powi (- 54)" by simp
  moreover have "0 \<le> exp x" by simp
  ultimately show ?thesis
    using round_double_le_pow2[of "exp x" "- 54"] by (simp add: emin_def emax_def)
qed

text \<open>
  Whatever is at most \<open>2 ^ - 54\<close> is lost in the subtraction from 1: the normalised
  distance is 1 as soon as the exponential is that small.
\<close>

lemma fsub_1_small:
  assumes "0 \<le> s" "s \<le> 2 powi (- 54)"
  shows "fsub (Fin 1) (Fin s) = Fin 1"
  using assms by (simp only: fsub.simps) (rule round_double_near_1, simp_all)

lemma np_exp_near_0:
  assumes "- (2 powi (- 54)) \<le> x" "x \<le> 0"
  shows "np_exp (Fin x) = Fin 1"
proof -
  have "1 + x \<le> exp x" by (rule exp_ge_add_one_self)
  with assms(1) have "1 - 2 powi (- 54) \<le> exp x" by linarith
  moreover have "exp x \<le> 1" using assms(2) by simp
  ultimately show ?thesis by (simp only: np_exp.simps round_double_near_1)
qed

lemma np_exp_unit:
  assumes "x \<le> 0"
  shows "\<exists>s. np_exp (Fin x) = Fin s \<and> 0 \<le> s \<and> s \<le> 1"
proof -
  have "0 \<le> exp x" "exp x \<le> 1" using assms by simp_all
  then show ?thesis by (simp only: np_exp.simps round_double_unit)
qed

text \<open>
  For a distance \<open>d \<ge> 0\<close> and \<open>beta > 0\<close> the similarity and the normalised distance
  are numbers of the closed unit interval.
\<close>

lemma similarity_unit:
  assumes "0 \<le> d" "0 < beta"
  shows "\<exists>s. np_exp (fmul (fneg (Fin beta)) (Fin d)) = Fin s \<and> 0 \<le> s \<and> s \<le> 1"
proof -
  have "- beta * d \<le> 0" using assms by (simp add: mult_nonneg_nonneg)
  from round_double_nonpos[OF this]
  show ?thesis
  proof
    assume "round_double (- beta * d) = NInf"
    then show ?thesis by simp
  next
    assume "\<exists>y. round_double (- beta * d) = Fin y \<and> y \<le> 0"
    then obtain y where y: "round_double (- beta * d) = Fin y" "y \<le> 0" by blast
    from np_exp_unit[OF y(2)] y(1) show ?thesis by simp
  qed
qed

lemma normed_unit:
  assumes "0 \<le> d" "0 < beta"
  shows "\<exists>v. fsub (Fin 1) (np_exp (fmul (fneg (Fin beta)) (Fin d))) = Fin v \<and> 0 \<le> v \<and> v \<le> 1"
proof -
  from similarity_unit[OF assms] obtain s
    where s: "np_exp (fmul (fneg (Fin beta)) (Fin d)) = Fin s" "0 \<le> s" "s \<le> 1" by blast
  have "0 \<le> 1 - s" "1 - s \<le> 1" using s(2,3) by simp_all
  from round_double_unit[OF this] show ?thesis by (simp only: s(1) fsub.simps)
qed

text \<open>The same for an infinite distance: the similarity is 0, the normalised distance 1.\<close>

lemma similarity_range:
  assumes "nonneg d" "0 < beta"
  shows "\<exists>s. np_exp (fmul (fneg (Fin beta)) d) = Fin s \<and> 0 \<le> s \<and> s \<le> 1"
proof (cases d)
  case (Fin x)
  with assms(1) have "0 \<le> x" by (simp add: nonneg_def)
  from similarity_unit[OF this assms(2)] Fin show ?thesis by (simp only:)
next
  case PInf
  with assms(2) show ?thesis by simp
next
  case NInf
  with assms(1) show ?thesis by (simp add: nonneg_def)
next
  case NaN
  with assms(1) show ?thesis by (simp add: nonneg_def)
qed

lemma normed_range:
  assumes "nonneg d" "0 < beta"
  shows "\<exists>v. fsub (Fin 1) (np_exp (fmul (fneg (Fin beta)) d)) = Fin v \<and> 0 \<le> v \<and> v \<le> 1"
proof -
  from similarity_range[OF assms] obtain s
    where s: "np_exp (fmul (fneg (Fin beta)) d) = Fin s" "0 \<le> s" "s \<le> 1" by blast
  have "0 \<le> 1 - s" "1 - s \<le> 1" using s(2,3) by simp_all
  from round_double_unit[OF this] show ?thesis by (simp only: s(1) fsub.simps)
qed

lemma similarity_at_0: "np_exp (fmul (fneg (Fin beta)) (Fin 0)) = Fin 1"
  by (simp add: round_double_0 round_double_1)

lemma fsub_1_1: "fsub (Fin 1) (Fin 1) = Fin 0"
  by (simp add: round_double_0)

lemma normed_at_0: "fsub (Fin 1) (np_exp (fmul (fneg (Fin beta)) (Fin 0))) = Fin 0"
  by (simp add: round_double_0 round_double_1)

text \<open>Particular values.\<close>

lemma mul_half_4096: "fmul (fneg (Fin (1 / 2))) (Fin 4096) = Fin (- 2048)"
  using round_double_exact[of "- 2048" "- 2048" 0] by (simp add: emin_def emax_def)

lemma mul_half_128: "fmul (fneg (Fin (1 / 2))) (Fin 128) = Fin (- 64)"
  using round_double_exact[of "- 64" "- 64" 0] by (simp add: emin_def emax_def)

lemma mul_half_tiny: "fmul (fneg (Fin (1 / 2))) (Fin (1 / 2 ^ 60)) = Fin (- (1 / 2 ^ 61))"
  using round_double_exact[of "- (1 / 2 ^ 61)" "- 1" "- 61"]
  by (simp add: emin_def emax_def power_int_minus)

lemma similarity_4096: "np_exp (fmul (fneg (Fin (1 / 2))) (Fin 4096)) = Fin 0"
  by (simp only: mul_half_4096) (rule np_exp_underflow, simp)

lemma normed_128: "fsub (Fin 1) (np_exp (fmul (fneg (Fin (1 / 2))) (Fin 128))) = Fin 1"
proof -
  from np_exp_small[of "- 64"] obtain s
    where "np_exp (Fin (- 64)) = Fin s" "0 \<le> s" "s \<le> 2 powi (- 54)" by auto
  then show ?thesis by (simp only: mul_half_128 fsub_1_small)
qed

lemma similarity_tiny: "np_exp (fmul (fneg (Fin (1 / 2))) (Fin (1 / 2 ^ 60))) = Fin 1"
proof -
  have "(- 61 :: int) \<le> - 54" by simp
  then have "(2::real) powi (- 61) \<le> 2 powi (- 54)" by (simp only: two_powi_le_iff)
  moreover have "(2::real) powi (- 61) = 1 / 2 ^ 61" by (simp add: power_int_minus field_simps)
  ultimately have "- (2 powi (- 54)) \<le> - (1 / 2 ^ 61 :: real)" by simp
  moreover have "- (1 / 2 ^ 61 :: real) \<le> 0" by simp
  ultimately have "np_exp (Fin (- (1 / 2 ^ 61))) = Fin 1" by (rule np_exp_near_0)
  then show ?thesis by (simp only: mul_half_tiny)
qed

lemma normed_tiny: "fsub (Fin 1) (np_exp (fmul (fneg (Fin (1 / 2))) (Fin (1 / 2 ^ 60)))) = Fin 0"
  by (simp only: similarity_tiny) (simp add: round_double_0)

subsection \<open>The GED cache\<close>

lemma try_lookup_fst: "fst (try_lookup T a b) = ged_entry T a b"
  by (simp add: try_lookup_def ged_entry_def split: option.splits)

lemma try_lookup_entry: "ged_entry (snd (try_lookup T a b)) x y = ged_entry T x y"
  by (simp add: try_lookup_def ged_entry_def split: option.splits)

lemma try_lookup_factory: "default_factory (snd (try_lookup T a b)) = default_factory T"
  by (simp add: try_lookup_def split: option.splits)

lemma try_lookup_plain: "\<not> default_factory T \<Longrightarrow> snd (try_lookup T a b) = T"
  by (simp add: try_lookup_def split: option.splits)

lemma try_lookup_row: "rows T a \<noteq> None \<Longrightarrow> snd (try_lookup T a b) = T"
  by (auto simp: try_lookup_def split: option.splits)

lemma try_lookup_rows_mono: "rows T x \<noteq> None \<Longrightarrow> rows (snd (try_lookup T a b)) x \<noteq> None"
  by (auto simp: try_lookup_def split: option.splits)

lemma try_lookup_row_made:
  "default_factory T \<Longrightarrow> rows (snd (try_lookup T a b)) a \<noteq> None"
  by (auto simp: try_lookup_def split: option.splits)

lemma store_entry:
  "store T a b v = Inr T' \<Longrightarrow>
   ged_entry T' x y = (if x = a \<and> y = b then Some v else ged_entry T x y)"
  by (auto simp: store_def ged_entry_def split: option.splits if_splits)

lemma store_rows_mono: "store T a b v = Inr T' \<Longrightarrow> rows T x \<noteq> None \<Longrightarrow> rows T' x \<noteq> None"
  by (auto simp: store_def split: option.splits if_splits)

lemma store_row: "store T a b v = Inr T' \<Longrightarrow> rows T' a \<noteq> None"
  by (auto simp: store_def split: option.splits if_splits)

lemma store_factory: "store T a b v = Inr T' \<Longrightarrow> default_factory T' = default_factory T"
  by (auto simp: store_def split: option.splits if_splits)

lemma store_ok: "default_factory T \<or> rows T a \<noteq> None \<Longrightarrow> \<exists>T'. store T a b v = Inr T'"
  by (auto simp: store_def split: option.splits)

lemma try_lookup_eq: "try_lookup T a b = (ged_entry T a b, snd (try_lookup T a b))"
  by (metis try_lookup_fst prod.collapse)

lemma ged_hit_ab:
  assumes "ged_entry T a b = Some v"
  shows "GED_hashtable_hashed ged a b T gt normed max_edges beta timeout similarity = (Inr v, T, 0)"
proof -
  from assms have "rows T a \<noteq> None" by (auto simp: ged_entry_def split: option.splits)
  then have "try_lookup T a b = (Some v, T)"
    using try_lookup_eq[of T a b] assms by (simp add: try_lookup_row)
  then show ?thesis by (simp add: GED_hashtable_hashed_def)
qed

lemma ged_hit_ba:
  assumes "ged_entry T a b = None" "ged_entry T b a = Some v"
  shows "GED_hashtable_hashed ged a b T gt normed max_edges beta timeout similarity =
           (Inr v, snd (try_lookup T a b), 0)"
proof -
  obtain T1 where T1: "T1 = snd (try_lookup T a b)" by simp
  have 1: "try_lookup T a b = (None, T1)"
    using try_lookup_eq[of T a b] assms(1) by (simp add: T1)
  from assms(2) have "rows T b \<noteq> None" by (auto simp: ged_entry_def split: option.splits)
  then have "rows T1 b \<noteq> None" unfolding T1 by (rule try_lookup_rows_mono)
  moreover have "ged_entry T1 b a = Some v" by (simp add: T1 try_lookup_entry assms(2))
  ultimately have 2: "try_lookup T1 b a = (Some v, T1)"
    using try_lookup_eq[of T1 b a] by (simp add: try_lookup_row)
  have "GED_hashtable_hashed ged a b T gt normed max_edges beta timeout similarity = (Inr v, T1, 0)"
    by (simp add: GED_hashtable_hashed_def 1 2)
  then show ?thesis by (simp only: T1)
qed

lemma after_lookups_entry: "ged_entry (after_lookups T a b) x y = ged_entry T x y"
  by (simp add: after_lookups_def try_lookup_entry)

lemma after_lookups_plain: "\<not> default_factory T \<Longrightarrow> after_lookups T a b = T"
  by (simp add: after_lookups_def try_lookup_plain)

lemma after_lookups_rows: "rows T x \<noteq> None \<Longrightarrow> rows (after_lookups T a b) x \<noteq> None"
  by (simp add: after_lookups_def try_lookup_rows_mono)

lemma after_lookups_factory: "default_factory (after_lookups T a b) = default_factory T"
  by (simp add: after_lookups_def try_lookup_factory)

lemma after_lookups_made:
  assumes "default_factory T"
  shows "rows (after_lookups T a b) a \<noteq> None" "rows (after_lookups T a b) b \<noteq> None"
proof -
  show "rows (after_lookups T a b) a \<noteq> None"
    unfolding after_lookups_def
    by (rule try_lookup_rows_mono) (rule try_lookup_row_made[OF assms])
  show "rows (after_lookups T a b) b \<noteq> None"
    unfolding after_lookups_def
    by (rule try_lookup_row_made) (simp add: try_lookup_factory assms)
qed

lemma ged_miss:
  assumes "ged_entry T a b = None" "ged_entry T b a = None"
  shows "GED_hashtable_hashed ged a b T gt normed max_edges beta timeout similarity =
     (case bucket_graph gt a of
        Inl e \<Rightarrow> (Inl e, after_lookups T a b, 0)
      | Inr G \<Rightarrow>
     (case bucket_graph gt b of
        Inl e \<Rightarrow> (Inl e, after_lookups T a b, 0)
      | Inr H \<Rightarrow>
     (case ged G H timeout of
        Inl e \<Rightarrow> (Inl e, after_lookups T a b, 1)
      | Inr distance \<Rightarrow>
          (let v = (if similarity then np_exp (fmul (fneg beta) distance)
                    else if normed then fsub (Fin 1) (np_exp (fmul (fneg beta) distance)) else distance) in
           case store (after_lookups T a b) a b v of
             Inl e \<Rightarrow> (Inl e, after_lookups T a b, 1)
           | Inr T3 \<Rightarrow> (Inr v, T3, 1)))))"
proof -
  obtain T1 where T1: "T1 = snd (try_lookup T a b)" by simp
  obtain T2 where T2: "T2 = after_lookups T a b" by simp
  have 1: "try_lookup T a b = (None, T1)"
    using try_lookup_eq[of T a b] assms(1) by (simp add: T1)
  have "ged_entry T1 b a = None" by (simp add: T1 try_lookup_entry assms(2))
  then have 2: "try_lookup T1 b a = (None, T2)"
    using try_lookup_eq[of T1 b a] by (simp add: T2 T1 after_lookups_def)
  have "GED_hashtable_hashed ged a b T gt normed max_edges beta timeout similarity =
     (case bucket_graph gt a of
        Inl e \<Rightarrow> (Inl e, T2, 0)
      | Inr G \<Rightarrow>
     (case bucket_graph gt b of
        Inl e \<Rightarrow> (Inl e, T2, 0)
      | Inr H \<Rightarrow>
     (case ged G H timeout of
        Inl e \<Rightarrow> (Inl e, T2, 1)
      | Inr distance \<Rightarrow>
          (let v = (if similarity then np_exp (fmul (fneg beta) distance)
                    else if normed then fsub (Fin 1) (np_exp (fmul (fneg beta) distance)) else distance) in
           case store T2 a b v of
             Inl e \<Rightarrow> (Inl e, T2, 1)
           | Inr T3 \<Rightarrow> (Inr v, T3, 1)))))"
    by (simp add: GED_hashtable_hashed_def 1 2 Let_def split: sum.splits)
  then show ?thesis by (simp only: T2)
qed

lemma ged_miss_result:
  assumes "ged_entry T a b = None" "ged_entry T b a = None"
    and "GED_hashtable_hashed ged a b T gt normed max_edges beta timeout similarity = (res, T', n)"
  shows "(\<exists>e. res = Inl e \<and> T' = after_lookups T a b) \<or>
     (\<exists>v. res = Inr v \<and> n = 1 \<and> store (after_lookups T a b) a b v = Inr T')"
proof -
  note eq = assms(3)[unfolded ged_miss[OF assms(1,2)]]
  show ?thesis
  proof (cases "bucket_graph gt a")
    case (Inl e)
    with eq have "res = Inl e" "T' = after_lookups T a b" by simp_all
    then show ?thesis by blast
  next
    case G: (Inr G)
    show ?thesis
    proof (cases "bucket_graph gt b")
      case (Inl e)
      with eq G have "res = Inl e" "T' = after_lookups T a b" by simp_all
      then show ?thesis by blast
    next
      case H: (Inr H)
      show ?thesis
      proof (cases "ged G H timeout")
        case (Inl e)
        with eq G H have "res = Inl e" "T' = after_lookups T a b" by simp_all
        then show ?thesis by blast
      next
        case d: (Inr d)
        let ?v = "if similarity then np_exp (fmul (fneg beta) d)
                  else if normed then fsub (Fin 1) (np_exp (fmul (fneg beta) d)) else d"
        show ?thesis
        proof (cases "store (after_lookups T a b) a b ?v")
          case (Inl e)
          with eq G H d have "res = Inl e" "T' = after_lookups T a b" by (simp_all add: Let_def)
          then show ?thesis by blast
        next
          case (Inr T3)
          with eq G H d have "res = Inr ?v" "n = 1" "T' = T3" by (auto simp: Let_def)
          with Inr show ?thesis by blast
        qed
      qed
    qed
  qed
qed

text \<open>What any call does to the cached entries.\<close>

lemma ged_call_entries:
  assumes "GED_hashtable_hashed ged a b T gt normed max_edges beta timeout similarity = (res, T', n)"
  shows "(\<forall>x y. ged_entry T' x y = ged_entry T x y) \<or>
     (ged_entry T a b = None \<and> ged_entry T b a = None \<and>
      (\<exists>v. res = Inr v \<and> n = 1 \<and>
           (\<forall>x y. ged_entry T' x y = (if x = a \<and> y = b then Some v else ged_entry T x y))))"
proof (cases "ged_entry T a b")
  case (Some v)
  have "GED_hashtable_hashed ged a b T gt normed max_edges beta timeout similarity = (Inr v, T, 0)"
    by (rule ged_hit_ab[OF Some])
  with assms show ?thesis by simp
next
  case None
  show ?thesis
  proof (cases "ged_entry T b a")
    case (Some v)
    have "GED_hashtable_hashed ged a b T gt normed max_edges beta timeout similarity =
        (Inr v, snd (try_lookup T a b), 0)"
      by (rule ged_hit_ba[OF None Some])
    with assms show ?thesis by (auto simp: try_lookup_entry)
  next
    case N2: None
    from ged_miss_result[OF None N2 assms] show ?thesis
    proof
      assume "\<exists>e. res = Inl e \<and> T' = after_lookups T a b"
      then show ?thesis by (auto simp: after_lookups_entry)
    next
      assume "\<exists>v. res = Inr v \<and> n = 1 \<and> store (after_lookups T a b) a b v = Inr T'"
      then obtain v where v: "res = Inr v" "n = 1" "store (after_lookups T a b) a b v = Inr T'"
        by blast
      have "ged_entry T' x y = (if x = a \<and> y = b then Some v else ged_entry T x y)" for x y
        using store_entry[OF v(3), of x y] by (simp add: after_lookups_entry)
      with v None N2 show ?thesis by blast
    qed
  qed
qed

lemma ged_call_rows:
  assumes "GED_hashtable_hashed ged a b T gt normed max_edges beta timeout similarity = (res, T', n)"
    and "rows T x \<noteq> None"
  shows "rows T' x \<noteq> None"
proof (cases "ged_entry T a b")
  case (Some v)
  have "GED_hashtable_hashed ged a b T gt normed max_edges beta timeout similarity = (Inr v, T, 0)"
    by (rule ged_hit_ab[OF Some])
  with assms show ?thesis by simp
next
  case None
  show ?thesis
  proof (cases "ged_entry T b a")
    case (Some v)
    have "GED_hashtable_hashed ged a b T gt normed max_edges beta timeout similarity =
        (Inr v, snd (try_lookup T a b), 0)"
      by (rule ged_hit_ba[OF None Some])
    with assms try_lookup_rows_mono[OF assms(2), of a b] show ?thesis by simp
  next
    case N2: None
    from ged_miss_result[OF None N2 assms(1)] after_lookups_rows[OF assms(2), of a b]
    show ?thesis
      by (auto dest: store_rows_mono)
  qed
qed

lemma cached_pair_call:
  assumes "cached_pair T a b v"
    and "GED_hashtable_hashed ged x y T gt normed max_edges beta timeout similarity = (res, T', n)"
  shows "cached_pair T' a b v"
proof -
  from assms(1) have ab: "ged_entry T a b = Some v" and ba: "a = b \<or> ged_entry T b a = None"
    by (simp_all add: cached_pair_def)
  from ged_call_entries[OF assms(2)] show ?thesis
  proof
    assume "\<forall>x y. ged_entry T' x y = ged_entry T x y"
    with assms(1) show ?thesis by (simp add: cached_pair_def)
  next
    assume "ged_entry T x y = None \<and> ged_entry T y x = None \<and>
      (\<exists>v. res = Inr v \<and> n = 1 \<and>
        (\<forall>x' y'. ged_entry T' x' y' = (if x' = x \<and> y' = y then Some v else ged_entry T x' y')))"
    then obtain w where xy: "ged_entry T x y = None" and yx: "ged_entry T y x = None"
      and upd: "\<And>x' y'. ged_entry T' x' y' = (if x' = x \<and> y' = y then Some w else ged_entry T x' y')"
      by blast
    from ab xy have n1: "\<not> (a = x \<and> b = y)" by auto
    from ab yx have n2: "\<not> (b = x \<and> a = y)" by auto
    from upd[of a b] n1 ab have "ged_entry T' a b = Some v" by simp
    moreover from upd[of b a] n2 have "ged_entry T' b a = ged_entry T b a" by simp
    ultimately show ?thesis using ba by (auto simp: cached_pair_def)
  qed
qed

lemma cached_pair_calls: "cached_pair T a b v \<Longrightarrow> cached_pair (ged_calls T cs) a b v"
proof (induction cs arbitrary: T)
  case Nil
  then show ?case by simp
next
  case (Cons c cs)
  obtain res T' n where r: "ged_call T c = (res, T', n)" by (cases "ged_call T c") auto
  from cached_pair_call[OF Cons.prems r[unfolded ged_call_def]]
  have "cached_pair T' a b v" .
  from Cons.IH[OF this] r show ?case by simp
qed

lemma cached_pair_hit:
  assumes "cached_pair T a b v"
  shows "GED_hashtable_hashed ged a b T gt normed max_edges beta timeout similarity = (Inr v, T, 0)"
    and "fst (GED_hashtable_hashed ged b a T gt normed max_edges beta timeout similarity) = Inr v"
    and "snd (snd (GED_hashtable_hashed ged b a T gt normed max_edges beta timeout similarity)) = 0"
    and "ged_entry (fst (snd (GED_hashtable_hashed ged b a T gt normed max_edges beta timeout
           similarity))) x y = ged_entry T x y"
proof -
  from assms have ab: "ged_entry T a b = Some v" by (simp add: cached_pair_def)
  show "GED_hashtable_hashed ged a b T gt normed max_edges beta timeout similarity = (Inr v, T, 0)"
    by (rule ged_hit_ab[OF ab])
  have "GED_hashtable_hashed ged b a T gt normed max_edges beta timeout similarity =
      (Inr v, snd (try_lookup T b a), 0)"
  proof (cases "a = b")
    case True
    with ab ged_hit_ab[of T a b v] try_lookup_row[of T a b] show ?thesis
      by (auto simp: ged_entry_def split: option.splits)
  next
    case False
    with assms have "ged_entry T b a = None" by (simp add: cached_pair_def)
    from ged_hit_ba[OF this ab] show ?thesis .
  qed
  then show "fst (GED_hashtable_hashed ged b a T gt normed max_edges beta timeout similarity) = Inr v"
    and "snd (snd (GED_hashtable_hashed ged b a T gt normed max_edges beta timeout similarity)) = 0"
    and "ged_entry (fst (snd (GED_hashtable_hashed ged b a T gt normed max_edges beta timeout
           similarity))) x y = ged_entry T x y"
    by (simp_all add: try_lookup_entry)
qed

lemma after_lookups_rows_eq:
  "rows (after_lookups T a b) x =
     (if default_factory T \<and> (x = a \<or> x = b) \<and> rows T x = None then Some Map.empty
      else rows T x)"
  by (auto simp: after_lookups_def try_lookup_def split: option.splits)

lemma fresh_is_miss:
  assumes "GED_hashtable_hashed ged a b T gt normed max_edges beta timeout similarity = (res, T1, Suc 0)"
  shows "ged_entry T a b = None" "ged_entry T b a = None"
proof -
  show 1: "ged_entry T a b = None"
  proof (rule ccontr)
    assume "ged_entry T a b \<noteq> None"
    then obtain w where "ged_entry T a b = Some w" by auto
    from ged_hit_ab[OF this, of ged gt normed max_edges beta timeout similarity] assms
    show False by simp
  qed
  show "ged_entry T b a = None"
  proof (rule ccontr)
    assume "ged_entry T b a \<noteq> None"
    then obtain w where "ged_entry T b a = Some w" by auto
    from ged_hit_ba[OF 1 this, of ged gt normed max_edges beta timeout similarity] assms
    show False by simp
  qed
qed

lemma fresh_cached_pair:
  assumes "GED_hashtable_hashed ged a b T gt normed max_edges beta timeout similarity = (Inr v, T1, Suc 0)"
  shows "cached_pair T1 a b v"
    and "\<forall>x y. (x, y) \<noteq> (a, b) \<longrightarrow> ged_entry T1 x y = ged_entry T x y"
proof -
  note miss = fresh_is_miss[OF assms]
  from ged_miss_result[OF miss assms] have st: "store (after_lookups T a b) a b v = Inr T1"
    by auto
  have e: "ged_entry T1 x y = (if x = a \<and> y = b then Some v else ged_entry T x y)" for x y
    using store_entry[OF st, of x y] by (simp add: after_lookups_entry)
  have ab: "ged_entry T1 a b = Some v" by (simp add: e)
  have "ged_entry T1 b a = None" if "a \<noteq> b"
    using that miss(2) by (simp add: e)
  then have "a = b \<or> ged_entry T1 b a = None" by (cases "a = b") simp_all
  with ab show "cached_pair T1 a b v"
    by (simp only: cached_pair_def)
  from e show "\<forall>x y. (x, y) \<noteq> (a, b) \<longrightarrow> ged_entry T1 x y = ged_entry T x y"
    by auto
qed

lemma after_lookups_same:
  "after_lookups T a b = T \<longleftrightarrow> \<not> default_factory T \<or> (rows T a \<noteq> None \<and> rows T b \<noteq> None)"
proof
  assume eq: "after_lookups T a b = T"
  show "\<not> default_factory T \<or> (rows T a \<noteq> None \<and> rows T b \<noteq> None)"
  proof (cases "default_factory T")
    case True
    from after_lookups_made[OF True, of a b] show ?thesis by (simp only: eq) simp
  qed simp
next
  assume "\<not> default_factory T \<or> (rows T a \<noteq> None \<and> rows T b \<noteq> None)"
  then show "after_lookups T a b = T"
  proof
    assume "\<not> default_factory T" then show ?thesis by (rule after_lookups_plain)
  next
    assume "rows T a \<noteq> None \<and> rows T b \<noteq> None"
    then show ?thesis by (simp add: after_lookups_def try_lookup_row)
  qed
qed

text \<open>
  C4. Let a call for \<open>(a, b)\<close> invoke the oracle once and return \<open>v\<close>, leaving the
  table \<open>T1\<close>. Then \<open>v\<close> is under \<open>[a][b]\<close>, nothing is under \<open>[b][a]\<close> (when the
  two are different entries), and no other entry has changed. After any further calls
  \<open>cs\<close> on the table, a call for \<open>(b, a)\<close> and a call for \<open>(a, b)\<close>, with any oracle,
  hash table and flags, return \<open>v\<close> and invoke the oracle zero times; the value is
  still stored in the one orientation only.
\<close>

theorem ged_cache_symmetry:
  assumes "GED_hashtable_hashed ged a b T gt normed max_edges beta timeout similarity
             = (Inr v, T1, Suc 0)"
    and "T2 = ged_calls T1 cs"
  shows "ged_entry T1 a b = Some v \<and> (a \<noteq> b \<longrightarrow> ged_entry T1 b a = None) \<and>
     (\<forall>x y. (x, y) \<noteq> (a, b) \<longrightarrow> ged_entry T1 x y = ged_entry T x y) \<and>
     fst (GED_hashtable_hashed ged' b a T2 gt' normed' max_edges' beta' timeout' similarity') = Inr v \<and>
     snd (snd (GED_hashtable_hashed ged' b a T2 gt' normed' max_edges' beta' timeout' similarity')) = 0 \<and>
     GED_hashtable_hashed ged' a b T2 gt' normed' max_edges' beta' timeout' similarity'
       = (Inr v, T2, 0) \<and>
     ged_entry T2 a b = Some v \<and> (a \<noteq> b \<longrightarrow> ged_entry T2 b a = None)"
proof -
  note c1 = fresh_cached_pair[OF assms(1)]
  from cached_pair_calls[OF c1(1), of cs] assms(2) have c2: "cached_pair T2 a b v" by simp
  from c1 c2 cached_pair_hit[OF c2] show ?thesis
    by (auto simp: cached_pair_def)
qed

text \<open>
  C5. When the pair is not cached, both buckets exist and the oracle raises \<open>e\<close>, the
  call raises \<open>e\<close> (after one invocation of the oracle) and writes no entry: every
  \<open>GED_table[x][y]\<close> is as before. The table itself is exactly as it was if and
  only if it is a plain dictionary or has the rows of \<open>a\<close> and \<open>b\<close> already: in a
  \<^verbatim>\<open>defaultdict(dict)\<close> the two lookups of lines 208-215 have created the empty
  rows of \<open>a\<close> and \<open>b\<close> where they were missing, and nothing else has changed.
\<close>

theorem oracle_failure_not_cached:
  assumes "ged_entry T a b = None" "ged_entry T b a = None"
    and "bucket_graph gt a = Inr G" "bucket_graph gt b = Inr H"
    and "ged G H timeout = Inl e"
  shows "\<exists>T'. GED_hashtable_hashed ged a b T gt normed max_edges beta timeout similarity
           = (Inl e, T', 1) \<and>
         (\<forall>x y. ged_entry T' x y = ged_entry T x y) \<and>
         (\<not> default_factory T \<longrightarrow> T' = T) \<and>
         (\<forall>x. rows T' x = (if default_factory T \<and> (x = a \<or> x = b) \<and> rows T x = None
                            then Some Map.empty else rows T x)) \<and>
         default_factory T' = default_factory T \<and>
         (T' = T \<longleftrightarrow> \<not> default_factory T \<or> (rows T a \<noteq> None \<and> rows T b \<noteq> None))"
proof -
  have "GED_hashtable_hashed ged a b T gt normed max_edges beta timeout similarity
      = (Inl e, after_lookups T a b, 1)"
    by (simp add: ged_miss[OF assms(1,2)] assms(3-5))
  moreover have "\<forall>x y. ged_entry (after_lookups T a b) x y = ged_entry T x y"
    by (simp add: after_lookups_entry)
  moreover have "\<not> default_factory T \<longrightarrow> after_lookups T a b = T"
    by (simp add: after_lookups_plain)
  moreover have "\<forall>x. rows (after_lookups T a b) x =
      (if default_factory T \<and> (x = a \<or> x = b) \<and> rows T x = None
       then Some Map.empty else rows T x)"
    by (simp add: after_lookups_rows_eq)
  moreover have "default_factory (after_lookups T a b) = default_factory T"
    by (rule after_lookups_factory)
  moreover note after_lookups_same[of T a b]
  ultimately show ?thesis by blast
qed

text \<open>
  C10. The first call for a pair caches the scalar \<open>v\<close> it computes under its own
  flags: the similarity when \<^verbatim>\<open>similarity\<close> is set, else the normalised distance
  when \<^verbatim>\<open>normed\<close> is set, else the raw distance. After any further calls, a
  call for the pair in either orientation returns \<open>v\<close> whatever its own oracle,
  flags and \<open>beta\<close> are. In particular a later call with \<^verbatim>\<open>similarity=False\<close> and
  \<^verbatim>\<open>normed=True\<close> returns the similarity \<open>np_exp (fmul (fneg beta) d)\<close> that a first call with
  \<^verbatim>\<open>similarity=True\<close> cached.
\<close>

theorem cached_scalar_ignores_flags:
  assumes "ged_entry T a b = None" "ged_entry T b a = None"
    and "bucket_graph gt a = Inr G" "bucket_graph gt b = Inr H"
    and "ged G H timeout = Inr d"
    and "default_factory T \<or> rows T a \<noteq> None"
    and "v = (if similarity then np_exp (fmul (fneg beta) d)
              else if normed then fsub (Fin 1) (np_exp (fmul (fneg beta) d)) else d)"
  shows "\<exists>T1. GED_hashtable_hashed ged a b T gt normed max_edges beta timeout similarity
           = (Inr v, T1, 1) \<and>
         ged_entry T1 a b = Some v \<and>
         fst (GED_hashtable_hashed ged' a b (ged_calls T1 cs) gt' normed' max_edges' beta' timeout'
                similarity') = Inr v \<and>
         fst (GED_hashtable_hashed ged' b a (ged_calls T1 cs) gt' normed' max_edges' beta' timeout'
                similarity') = Inr v \<and>
         (similarity \<longrightarrow>
            fst (GED_hashtable_hashed ged' a b (ged_calls T1 cs) gt' True max_edges' beta' timeout'
                   False) = Inr (np_exp (fmul (fneg beta) d)) \<and>
            fst (GED_hashtable_hashed ged' b a (ged_calls T1 cs) gt' True max_edges' beta' timeout'
                   False) = Inr (np_exp (fmul (fneg beta) d)))"
proof -
  from assms(6) have "default_factory (after_lookups T a b) \<or> rows (after_lookups T a b) a \<noteq> None"
    by (auto simp: after_lookups_factory after_lookups_rows)
  from store_ok[OF this, of b v] obtain T1 where st: "store (after_lookups T a b) a b v = Inr T1"
    by blast
  have call: "GED_hashtable_hashed ged a b T gt normed max_edges beta timeout similarity
      = (Inr v, T1, Suc 0)"
    using st by (simp add: ged_miss[OF assms(1,2)] assms(3-5) assms(7)[symmetric] Let_def)
  note c1 = fresh_cached_pair[OF call]
  from cached_pair_calls[OF c1(1), of cs] have c2: "cached_pair (ged_calls T1 cs) a b v" .
  have hit: "fst (GED_hashtable_hashed g' a b (ged_calls T1 cs) t' n' m' b' o' s') = Inr v"
    "fst (GED_hashtable_hashed g' b a (ged_calls T1 cs) t' n' m' b' o' s') = Inr v"
    for g' :: "'b graph \<Rightarrow> 'b graph \<Rightarrow> nat \<Rightarrow> error + double" and t' n' m' b' o' s'
    using cached_pair_hit[OF c2, of g' t' n' m' b' o' s'] by simp_all
  have "similarity \<longrightarrow> v = np_exp (fmul (fneg beta) d)" using assms(7) by simp
  with call c1(1) hit show ?thesis
    by (auto simp: cached_pair_def)
qed

lemmas ged_eval = GED_hashtable_hashed_def try_lookup_def store_def bucket_graph_def
  ged_entry_def T_empty_def T_plain_def gt_ex_def ged_const_def ged_timeout_def ged_call_def
  other_call_def

lemma first_call_ex:
  "GED_hashtable_hashed (ged_const (Fin 0)) ''a'' ''u'' T_empty gt_ex True 7 (Fin (1 / 2)) 60 True =
     (Inr (Fin 1),
      fst (snd (GED_hashtable_hashed (ged_const (Fin 0)) ''a'' ''u'' T_empty gt_ex True 7 (Fin (1 / 2)) 60 True)),
      Suc 0)"
  by (simp add: ged_eval prod_eq_iff round_double_0 round_double_1 Let_def)

theorem ged_cache_symmetry_witness:
  "fst (GED_hashtable_hashed (ged_const (Fin 0)) ''a'' ''u'' T_empty gt_ex True 7 (Fin (1 / 2)) 60 True) = Inr (Fin 1) \<and>
   snd (snd (GED_hashtable_hashed (ged_const (Fin 0)) ''a'' ''u'' T_empty gt_ex True 7 (Fin (1 / 2)) 60 True)) = 1 \<and>
   fst (GED_hashtable_hashed ged_timeout ''u'' ''a''
          (ged_calls (fst (snd (GED_hashtable_hashed (ged_const (Fin 0)) ''a'' ''u'' T_empty gt_ex True 7
             (Fin (1 / 2)) 60 True))) [other_call])
          gt_ex True 7 (Fin (1 / 2)) 60 False) = Inr (Fin 1) \<and>
   snd (snd (GED_hashtable_hashed ged_timeout ''u'' ''a''
          (ged_calls (fst (snd (GED_hashtable_hashed (ged_const (Fin 0)) ''a'' ''u'' T_empty gt_ex True 7
             (Fin (1 / 2)) 60 True))) [other_call])
          gt_ex True 7 (Fin (1 / 2)) 60 False)) = 0"
  using ged_cache_symmetry [OF first_call_ex refl, where cs = "[other_call]" and ged' = ged_timeout
      and gt' = gt_ex and normed' = True and max_edges' = 7 and beta' = "Fin (1 / 2)" and timeout' = 60
      and similarity' = False]
    first_call_ex
  by (metis fst_conv snd_conv One_nat_def)

theorem oracle_failure_not_cached_witness:
  "GED_hashtable_hashed ged_timeout ''a'' ''u'' T_plain gt_ex True 7 (Fin (1 / 2)) 60 False =
     (Inl OracleTimeoutError, T_plain, 1) \<and>
   ged_entry T_plain ''a'' ''u'' = None \<and> ged_entry T_plain ''u'' ''a'' = None \<and>
   fst (GED_hashtable_hashed ged_timeout ''a'' ''u'' T_empty gt_ex True 7 (Fin (1 / 2)) 60 False)
     = Inl OracleTimeoutError \<and>
   ged_entry (fst (snd (GED_hashtable_hashed ged_timeout ''a'' ''u'' T_empty gt_ex True 7
     (Fin (1 / 2)) 60 False))) ''a'' ''u'' = None \<and>
   ged_entry (fst (snd (GED_hashtable_hashed ged_timeout ''a'' ''u'' T_empty gt_ex True 7
     (Fin (1 / 2)) 60 False))) ''u'' ''a'' = None"
proof -
  have 1: "ged_entry T_plain ''a'' ''u'' = None" "ged_entry T_plain ''u'' ''a'' = None"
    by (simp_all add: ged_eval)
  have e1: "ged_entry T_empty ''a'' ''u'' = None" "ged_entry T_empty ''u'' ''a'' = None"
    by (simp_all add: ged_eval)
  have 2: "bucket_graph gt_ex ''a'' = Inr G_A" "bucket_graph gt_ex ''u'' = Inr G_U"
    by (simp_all add: ged_eval)
  have 3: "ged_timeout G_A G_U 60 = Inl OracleTimeoutError"
    by (simp add: ged_eval)
  have 4: "\<not> default_factory T_plain" by (simp add: T_plain_def)
  from oracle_failure_not_cached [where ged = ged_timeout and timeout = 60 and normed = True
      and max_edges = 7 and beta = "Fin (1 / 2)" and similarity = False, OF 1 2 3] 4
  have p: "GED_hashtable_hashed ged_timeout ''a'' ''u'' T_plain gt_ex True 7 (Fin (1 / 2)) 60 False =
     (Inl OracleTimeoutError, T_plain, 1)" by auto
  from oracle_failure_not_cached [where ged = ged_timeout and timeout = 60 and normed = True
      and max_edges = 7 and beta = "Fin (1 / 2)" and similarity = False, OF e1 2 3]
  obtain T' where e: "GED_hashtable_hashed ged_timeout ''a'' ''u'' T_empty gt_ex True 7 (Fin (1 / 2)) 60 False
      = (Inl OracleTimeoutError, T', 1)"
    and ent: "\<forall>x y. ged_entry T' x y = ged_entry T_empty x y" by blast
  from p 1 e1 e ent show ?thesis by simp
qed

text \<open>
  The table is not always as it was before the call: an empty
  \<^verbatim>\<open>defaultdict(dict)\<close> has the rows of \<^verbatim>\<open>'a'\<close> and \<^verbatim>\<open>'u'\<close> after the oracle
  has timed out on that pair.
\<close>

theorem oracle_failure_table_counterexample:
  "fst (GED_hashtable_hashed ged_timeout ''a'' ''u'' T_empty gt_ex True 7 (Fin (1 / 2)) 60 False)
     = Inl OracleTimeoutError \<and>
   rows T_empty ''a'' = None \<and> rows T_empty ''u'' = None \<and>
   rows (fst (snd (GED_hashtable_hashed ged_timeout ''a'' ''u'' T_empty gt_ex True 7 (Fin (1 / 2))
     60 False))) ''a'' \<noteq> None \<and>
   rows (fst (snd (GED_hashtable_hashed ged_timeout ''a'' ''u'' T_empty gt_ex True 7 (Fin (1 / 2))
     60 False))) ''u'' \<noteq> None \<and>
   fst (snd (GED_hashtable_hashed ged_timeout ''a'' ''u'' T_empty gt_ex True 7 (Fin (1 / 2)) 60
     False)) \<noteq> T_empty"
proof -
  have call: "GED_hashtable_hashed ged_timeout ''a'' ''u'' T_empty gt_ex True 7 (Fin (1 / 2)) 60 False
      = (Inl OracleTimeoutError,
         \<lparr>default_factory = True, rows = [''a'' \<mapsto> Map.empty, ''u'' \<mapsto> Map.empty]\<rparr>, 1)"
    by (simp add: ged_eval fun_upd_twist)
  have ne: "\<lparr>default_factory = True, rows = [''a'' \<mapsto> Map.empty, ''u'' \<mapsto> Map.empty]\<rparr> \<noteq> T_empty"
  proof
    assume "\<lparr>default_factory = True, rows = [''a'' \<mapsto> Map.empty, ''u'' \<mapsto> Map.empty]\<rparr> = T_empty"
    then have "rows \<lparr>default_factory = True, rows = [''a'' \<mapsto> Map.empty, ''u'' \<mapsto> Map.empty]\<rparr> ''a''
        = rows T_empty ''a''" by (simp only:)
    then show False by (simp add: T_empty_def)
  qed
  show ?thesis unfolding call using ne by (simp add: T_empty_def)
qed

theorem cached_scalar_ignores_flags_witness:
  "fst (GED_hashtable_hashed (ged_const (Fin 0)) ''a'' ''u'' T_empty gt_ex True 7 (Fin (1 / 2)) 60 True) = Inr (Fin 1) \<and>
   fst (GED_hashtable_hashed ged_timeout ''u'' ''a''
          (fst (snd (GED_hashtable_hashed (ged_const (Fin 0)) ''a'' ''u'' T_empty gt_ex True 7 (Fin (1 / 2)) 60
             True)))
          gt_ex True 7 (Fin (1 / 2)) 60 False) = Inr (Fin 1) \<and>
   fsub (Fin 1) (np_exp (fmul (fneg (Fin (1 / 2))) (Fin 0))) = Fin 0"
proof -
  have 1: "ged_entry T_empty ''a'' ''u'' = None" "ged_entry T_empty ''u'' ''a'' = None"
    by (simp_all add: ged_eval)
  have 2: "bucket_graph gt_ex ''a'' = Inr G_A" "bucket_graph gt_ex ''u'' = Inr G_U"
    by (simp_all add: ged_eval)
  have 3: "ged_const (Fin 0) G_A G_U 60 = Inr (Fin 0)"
    by (simp add: ged_eval)
  have 4: "default_factory T_empty \<or> rows T_empty ''a'' \<noteq> None" by (simp add: T_empty_def)
  have 5: "Fin 1 = (if True then np_exp (fmul (fneg (Fin (1 / 2))) (Fin 0))
                    else if True then fsub (Fin 1) (np_exp (fmul (fneg (Fin (1 / 2))) (Fin 0)))
                    else Fin 0)"
    by (simp only: similarity_at_0 if_True)
  from cached_scalar_ignores_flags [where ged = "ged_const (Fin 0)" and timeout = 60
      and cs = "[]" and ged' = ged_timeout
      and gt' = gt_ex and normed' = True and max_edges' = 7 and beta' = "Fin (1 / 2)" and timeout' = 60
      and similarity' = False and max_edges = 7, OF 1 2 3 4 5]
  obtain T1 where T1: "GED_hashtable_hashed (ged_const (Fin 0)) ''a'' ''u'' T_empty gt_ex True 7 (Fin (1 / 2)) 60 True
      = (Inr (Fin 1), T1, 1)"
    and later: "fst (GED_hashtable_hashed ged_timeout ''u'' ''a'' (ged_calls T1 []) gt_ex True 7
      (Fin (1 / 2)) 60 False) = Inr (Fin 1)"
    by blast
  from T1 later show ?thesis by (simp add: round_double_0 round_double_1)
qed

subsection \<open>The range of a fresh value\<close>

text \<open>
  C9. Let a call compute a fresh value from a distance \<open>d\<close> that is not negative
  (it may be infinite) with a finite \<open>beta > 0\<close>, under \<^verbatim>\<open>similarity=True\<close> or
  \<^verbatim>\<open>normed=True\<close>. The value returned is the similarity
  \<^verbatim>\<open>np.exp(-beta * d)\<close> when \<^verbatim>\<open>similarity\<close> is set and the normalised distance
  \<^verbatim>\<open>1 - np.exp(-beta * d)\<close> otherwise. It is a number of the closed interval
  \<open>[0, 1]\<close>; for \<open>d = 0\<close> the similarity is 1 and the normalised distance is 0.
\<close>

theorem fresh_scalar_range:
  assumes "ged_entry T a b = None" "ged_entry T b a = None"
    and "bucket_graph gt a = Inr G" "bucket_graph gt b = Inr H"
    and "ged G H timeout = Inr d" "nonneg d" "0 < beta"
    and "default_factory T \<or> rows T a \<noteq> None"
    and "similarity \<or> normed"
  shows "\<exists>v T1. GED_hashtable_hashed ged a b T gt normed max_edges (Fin beta) timeout similarity
           = (Inr (Fin v), T1, 1) \<and>
         Fin v = (if similarity then np_exp (fmul (fneg (Fin beta)) d)
                  else fsub (Fin 1) (np_exp (fmul (fneg (Fin beta)) d))) \<and>
         0 \<le> v \<and> v \<le> 1 \<and>
         (d = Fin 0 \<longrightarrow> v = (if similarity then 1 else 0))"
proof -
  define w where "w = (if similarity then np_exp (fmul (fneg (Fin beta)) d)
      else if normed then fsub (Fin 1) (np_exp (fmul (fneg (Fin beta)) d)) else d)"
  have w': "w = (if similarity then np_exp (fmul (fneg (Fin beta)) d)
      else fsub (Fin 1) (np_exp (fmul (fneg (Fin beta)) d)))"
    using assms(9) by (auto simp: w_def)
  have "\<exists>v. w = Fin v \<and> 0 \<le> v \<and> v \<le> 1"
  proof (cases similarity)
    case True
    with similarity_range[OF assms(6,7)] show ?thesis by (simp only: w' if_True)
  next
    case False
    with normed_range[OF assms(6,7)] show ?thesis by (simp only: w' if_False)
  qed
  then obtain v where v: "w = Fin v" "0 \<le> v" "v \<le> 1" by blast
  have zero: "d = Fin 0 \<longrightarrow> v = (if similarity then 1 else 0)"
  proof
    assume "d = Fin 0"
    then have "w = (if similarity then Fin 1 else Fin 0)"
      by (cases similarity) (simp_all only: w' similarity_at_0 fsub_1_1 if_True if_False)
    with v(1) show "v = (if similarity then 1 else 0)" by (auto split: if_splits)
  qed
  from assms(8) have "default_factory (after_lookups T a b) \<or> rows (after_lookups T a b) a \<noteq> None"
    by (auto simp: after_lookups_factory after_lookups_rows)
  from store_ok[OF this, of b w] obtain T1 where st: "store (after_lookups T a b) a b w = Inr T1"
    by blast
  have "GED_hashtable_hashed ged a b T gt normed max_edges (Fin beta) timeout similarity
      = (Inr w, T1, 1)"
    using st by (simp add: ged_miss[OF assms(1,2)] assms(3-5) w_def[symmetric] Let_def)
  then have c: "GED_hashtable_hashed ged a b T gt normed max_edges (Fin beta) timeout similarity
      = (Inr (Fin v), T1, 1)"
    by (simp only: v(1))
  from w' have e: "Fin v = (if similarity then np_exp (fmul (fneg (Fin beta)) d)
      else fsub (Fin 1) (np_exp (fmul (fneg (Fin beta)) d)))"
    by (simp only: v(1))
  from c e v(2,3) zero show ?thesis by blast
qed

theorem fresh_scalar_range_witness:
  "fst (GED_hashtable_hashed (ged_const (Fin 0)) ''a'' ''u'' T_empty gt_ex True 7 (Fin (1 / 2)) 60 True)
     = Inr (Fin 1) \<and>
   fst (GED_hashtable_hashed (ged_const (Fin 0)) ''a'' ''u'' T_empty gt_ex True 7 (Fin (1 / 2)) 60 False)
     = Inr (Fin 0)"
proof -
  have 1: "ged_entry T_empty ''a'' ''u'' = None" "ged_entry T_empty ''u'' ''a'' = None"
    by (simp_all add: ged_eval)
  have 2: "bucket_graph gt_ex ''a'' = Inr G_A" "bucket_graph gt_ex ''u'' = Inr G_U"
    by (simp_all add: ged_eval)
  have 3: "ged_const (Fin 0) G_A G_U 60 = Inr (Fin 0)"
    by (simp add: ged_eval)
  have 4: "default_factory T_empty \<or> rows T_empty ''a'' \<noteq> None" by (simp add: T_empty_def)
  have 5: "nonneg (Fin 0)" by (simp add: nonneg_def)
  from fresh_scalar_range [where ged = "ged_const (Fin 0)" and timeout = 60 and beta = "1 / 2"
      and normed = True and similarity = True and max_edges = 7, OF 1 2 3 5 _ 4]
  have s: "fst (GED_hashtable_hashed (ged_const (Fin 0)) ''a'' ''u'' T_empty gt_ex True 7 (Fin (1 / 2))
      60 True) = Inr (Fin 1)"
    by auto
  from fresh_scalar_range [where ged = "ged_const (Fin 0)" and timeout = 60 and beta = "1 / 2"
      and normed = True and similarity = False and max_edges = 7, OF 1 2 3 5 _ 4]
  have n: "fst (GED_hashtable_hashed (ged_const (Fin 0)) ''a'' ''u'' T_empty gt_ex True 7 (Fin (1 / 2))
      60 False) = Inr (Fin 0)"
    by auto
  from s n show ?thesis by simp
qed

lemma fresh_call_ex:
  "fst (GED_hashtable_hashed (ged_const d) ''a'' ''u'' T_empty gt_ex normed 7 beta 60 similarity) =
     Inr (if similarity then np_exp (fmul (fneg beta) d)
          else if normed then fsub (Fin 1) (np_exp (fmul (fneg beta) d)) else d)"
  by (simp add: ged_eval Let_def)

text \<open>
  Both ends of the interval are reached, and the converse for \<open>d = 0\<close> fails. With
  \<^verbatim>\<open>beta=0.5\<close>: for \<open>d = 4096\<close> the exponential underflows and the similarity is 0;
  for \<open>d = 128\<close> the exponential is below \<open>2 ^ - 54\<close> and the normalised distance is
  1; for \<open>d = 2 ^ - 60\<close>, which is not 0, the similarity is 1 and the normalised
  distance is 0. With an infinite \<open>beta\<close> and \<open>d = 0\<close> the product, and with it the
  similarity, is NaN.
\<close>

theorem fresh_scalar_range_counterexample:
  "fst (GED_hashtable_hashed (ged_const (Fin 4096)) ''a'' ''u'' T_empty gt_ex True 7 (Fin (1 / 2)) 60 True)
     = Inr (Fin 0) \<and>
   fst (GED_hashtable_hashed (ged_const (Fin 128)) ''a'' ''u'' T_empty gt_ex True 7 (Fin (1 / 2)) 60 False)
     = Inr (Fin 1) \<and>
   fst (GED_hashtable_hashed (ged_const (Fin (1 / 2 ^ 60))) ''a'' ''u'' T_empty gt_ex True 7
     (Fin (1 / 2)) 60 True) = Inr (Fin 1) \<and>
   fst (GED_hashtable_hashed (ged_const (Fin (1 / 2 ^ 60))) ''a'' ''u'' T_empty gt_ex True 7
     (Fin (1 / 2)) 60 False) = Inr (Fin 0) \<and>
   fst (GED_hashtable_hashed (ged_const (Fin 0)) ''a'' ''u'' T_empty gt_ex True 7 PInf 60 True)
     = Inr NaN"
proof -
  have "np_exp (fmul (fneg PInf) (Fin 0)) = NaN" by simp
  then show ?thesis
    by (simp only: fresh_call_ex similarity_4096 normed_128 similarity_tiny fsub_1_1 if_True
        if_False simp_thms)
qed

subsection \<open>Invariance of the digest under isomorphism\<close>

lemma canonicalize_total: "l \<noteq> [] \<Longrightarrow> canonicalize l = Inr (canon_total l)"
  by (cases l) (simp_all add: canonicalize_def canon_total_def)

lemma canonicalize_edges_Inr_map:
  "canonicalize_edges es = Inr es' \<Longrightarrow>
   es' = map (\<lambda>(k, l). (k, Some (canon_total (the l)))) es \<and>
   (\<forall>(k, l) \<in> set es. l \<noteq> None \<and> l \<noteq> Some [])"
proof (induction es arbitrary: es' rule: canonicalize_edges.induct)
  case 1
  then show ?case by simp
next
  case (2 uv es)
  then show ?case by simp
next
  case (3 uv label es)
  from "3.prems" obtain l' r where l': "canonicalize label = Inr l'"
    and r: "canonicalize_edges es = Inr r" and es': "es' = (uv, Some l') # r"
    by (auto split: sum.splits)
  from l' have ne: "label \<noteq> []" by (auto simp: canonicalize_def)
  with l' have "l' = canon_total label" by (simp add: canonicalize_total)
  with "3.IH"[OF l' r] es' ne show ?case by simp
qed

lemma canonicalize_edges_ok:
  "\<forall>(k, l) \<in> set es. l \<noteq> None \<and> l \<noteq> Some [] \<Longrightarrow>
   canonicalize_edges es = Inr (map (\<lambda>(k, l). (k, Some (canon_total (the l)))) es)"
proof (induction es rule: canonicalize_edges.induct)
  case 1
  then show ?case by simp
next
  case (2 uv es)
  then show ?case by simp
next
  case (3 uv label es)
  from "3.prems" have ne: "label \<noteq> []" by simp
  from "3.prems" have rest: "\<forall>(k, l) \<in> set es. l \<noteq> None \<and> l \<noteq> Some []" by simp
  from "3.IH"[OF canonicalize_total[OF ne] rest] show ?case
    by (simp add: canonicalize_total[OF ne])
qed

lemma canonicalize_edges_iff:
  "(\<exists>es'. canonicalize_edges es = Inr es') \<longleftrightarrow> (\<forall>(k, l) \<in> set es. l \<noteq> None \<and> l \<noteq> Some [])"
  using canonicalize_edges_ok canonicalize_edges_Inr_map by blast

lemma nei_strs_cases:
  "nei_strs es labels =
     (if \<forall>(v, l) \<in> set es. l \<noteq> None \<and> map_of labels v \<noteq> None
      then Inr (map (\<lambda>(v, l). the l @ the (map_of labels v)) es)
      else Inl KeyError)"
  by (induction es labels rule: nei_strs.induct) (auto split: option.splits)

lemma WL_step_loop_cases:
  "WL_step_loop G labels ns =
     (if \<forall>n \<in> set ns. \<exists>s. nei_agg_edges G n labels = Inr s
      then Inr (map (\<lambda>n. (n, projr (nei_agg_edges G n labels))) ns)
      else Inl KeyError)"
proof (induction ns)
  case Nil
  show ?case by simp
next
  case (Cons n ns)
  have err: "nei_agg_edges G n labels = Inl e \<Longrightarrow> e = KeyError" for e
    by (auto simp: nei_agg_edges_def nei_strs_cases split: option.splits if_splits)
  show ?case
  proof (cases "nei_agg_edges G n labels")
    case (Inl e)
    with err[OF Inl] show ?thesis by auto
  next
    case (Inr s)
    with Cons.IH show ?thesis by auto
  qed
qed

lemma sort_cong_mset: "mset xs = mset ys \<Longrightarrow> sort xs = sort ys"
  by (metis properties_for_sort sorted_sort mset_sort)

lemma counter_items_cong:
  assumes "mset xs = mset ys"
  shows "counter_items xs = counter_items ys"
proof -
  from assms have s: "set xs = set ys" by (rule mset_eq_setD)
  have r: "mset (remdups zs) = mset_set (set zs)" for zs :: "string list"
    using mset_set_set[OF distinct_remdups, of zs] by simp
  have "sort (remdups xs) = sort (remdups ys)"
    by (rule sort_cong_mset) (simp add: r s)
  moreover have "count_list xs k = count_list ys k" for k
    using assms by (metis count_mset)
  ultimately show ?thesis by (simp add: counter_items_def)
qed

lemma iso_nodes_mset:
  assumes "wf_graph G1" "wf_graph G2" "graph_iso f G1 G2"
  shows "mset (nodes G2) = image_mset f (mset (nodes G1))"
proof -
  from assms have d: "distinct (nodes G1)" "distinct (nodes G2)"
    and i: "inj_on f (set (nodes G1))" and s: "f ` set (nodes G1) = set (nodes G2)"
    by (simp_all add: wf_graph_def graph_iso_def)
  have "mset (nodes G2) = mset_set (f ` set (nodes G1))"
    by (simp add: s mset_set_set[OF d(2)])
  also have "\<dots> = image_mset f (mset_set (set (nodes G1)))"
    by (rule image_mset_mset_set[OF i, symmetric])
  finally show ?thesis by (simp add: mset_set_set[OF d(1)])
qed

lemma wf_edge_nodes:
  "wf_graph G \<Longrightarrow> ((u, v), l) \<in> set (edges G) \<Longrightarrow> u \<in> set (nodes G) \<and> v \<in> set (nodes G)"
  by (auto simp: wf_graph_def list_all_iff)

lemma wf_edges_distinct: "wf_graph G \<Longrightarrow> distinct (edges G)"
  by (auto simp: wf_graph_def distinct_map)

lemma iso_edges_mset:
  assumes "wf_graph G1" "wf_graph G2" "graph_iso f G1 G2"
  shows "mset (edges G2) = image_mset (\<lambda>((u, v), l). ((f u, f v), l)) (mset (edges G1))"
proof -
  let ?phi = "\<lambda>((u, v), l). ((f u, f v), l)"
  from assms have i: "inj_on f (set (nodes G1))" and s: "set (edges G2) = ?phi ` set (edges G1)"
    by (simp_all add: graph_iso_def)
  have inj: "inj_on ?phi (set (edges G1))"
  proof (rule inj_onI)
    fix x y assume x: "x \<in> set (edges G1)" and y: "y \<in> set (edges G1)" and e: "?phi x = ?phi y"
    obtain u v l where xx: "x = ((u, v), l)" by (metis surj_pair)
    obtain u' v' l' where yy: "y = ((u', v'), l')" by (metis surj_pair)
    from wf_edge_nodes[OF assms(1)] x y xx yy
    have "u \<in> set (nodes G1)" "v \<in> set (nodes G1)" "u' \<in> set (nodes G1)" "v' \<in> set (nodes G1)"
      by blast+
    with e xx yy i show "x = y" by (auto dest: inj_onD)
  qed
  have "mset (edges G2) = mset_set (?phi ` set (edges G1))"
    by (simp add: s[symmetric] mset_set_set[OF wf_edges_distinct[OF assms(2)]])
  also have "\<dots> = image_mset ?phi (mset_set (set (edges G1)))"
    by (rule image_mset_mset_set[OF inj, symmetric])
  finally show ?thesis by (simp add: mset_set_set[OF wf_edges_distinct[OF assms(1)]])
qed

lemma mset_out_edges:
  "mset (out_edges G n) =
     image_mset (\<lambda>((u, v), l). (v, l)) (filter_mset (\<lambda>((u, v), l). u = n) (mset (edges G)))"
  by (simp add: out_edges_def)

lemma iso_out_edges_mset:
  assumes "wf_graph G1" "wf_graph G2" "graph_iso f G1 G2" "n \<in> set (nodes G1)"
  shows "mset (out_edges G2 (f n)) = image_mset (\<lambda>(v, l). (f v, l)) (mset (out_edges G1 n))"
proof -
  let ?phi = "\<lambda>((u, v), l). ((f u, f v), l)"
  from assms have i: "inj_on f (set (nodes G1))" by (simp add: graph_iso_def)
  have f: "filter_mset (\<lambda>x. (\<lambda>((u, v), l). u = f n) (?phi x)) (mset (edges G1)) =
           filter_mset (\<lambda>((u, v), l). u = n) (mset (edges G1))"
  proof (rule filter_mset_cong[OF refl])
    fix x assume "x \<in># mset (edges G1)"
    then have x: "x \<in> set (edges G1)" by simp
    obtain u v l where xx: "x = ((u, v), l)" by (metis surj_pair)
    from wf_edge_nodes[OF assms(1)] x xx have "u \<in> set (nodes G1)" by blast
    with i assms(4) have "f u = f n \<longleftrightarrow> u = n" by (auto dest: inj_onD)
    then show "(\<lambda>((u, v), l). u = f n) (?phi x) = (\<lambda>((u, v), l). u = n) x"
      by (simp add: xx)
  qed
  have "mset (out_edges G2 (f n)) =
      image_mset (\<lambda>((u, v), l). (v, l))
        (image_mset ?phi (filter_mset (\<lambda>((u, v), l). u = n) (mset (edges G1))))"
    unfolding mset_out_edges iso_edges_mset[OF assms(1-3)] filter_mset_image_mset f ..
  also have "\<dots> = image_mset (\<lambda>(v, l). (f v, l)) (mset (out_edges G1 n))"
    unfolding mset_out_edges
    by (simp add: multiset.map_comp comp_def case_prod_beta)
  finally show ?thesis .
qed

lemma lab_rel_lookup:
  assumes "lab_rel f G1 G2 l1 l2" "n \<in> set (nodes G1)"
  shows "\<exists>s. map_of l1 n = Some s \<and> map_of l2 (f n) = Some s"
proof -
  from assms have "n \<in> fst ` set l1" by (metis lab_rel_def set_map)
  then obtain s where "map_of l1 n = Some s"
    by (metis map_of_eq_None_iff not_Some_eq)
  with assms show ?thesis by (simp add: lab_rel_def)
qed

lemma out_edges_nodes:
  "wf_graph G \<Longrightarrow> (v, l) \<in> set (out_edges G n) \<Longrightarrow> v \<in> set (nodes G)"
  by (auto simp: out_edges_def dest: wf_edge_nodes)

lemma iso_nei_agg_edges:
  assumes "wf_graph G1" "wf_graph G2" "graph_iso f G1 G2" "lab_rel f G1 G2 l1 l2"
    and "n \<in> set (nodes G1)"
  shows "nei_agg_edges G2 (f n) l2 = nei_agg_edges G1 n l1"
proof -
  let ?psi = "\<lambda>(v, l). (f v, l)"
  let ?g1 = "\<lambda>(v, l). the l @ the (map_of l1 v)"
  let ?g2 = "\<lambda>(v, l). the l @ the (map_of l2 v)"
  note m = iso_out_edges_mset[OF assms(1-3,5)]
  from lab_rel_lookup[OF assms(4,5)] obtain own where
    own: "map_of l1 n = Some own" "map_of l2 (f n) = Some own" by blast
  have look: "map_of l2 (f v) = map_of l1 v \<and> map_of l1 v \<noteq> None"
    if "(v, l) \<in> set (out_edges G1 n)" for v l
    using lab_rel_lookup[OF assms(4) out_edges_nodes[OF assms(1) that]] by auto
  from m have s: "set (out_edges G2 (f n)) = ?psi ` set (out_edges G1 n)"
    by (metis set_mset_mset set_image_mset)
  have c: "(\<forall>(v, l) \<in> set (out_edges G2 (f n)). l \<noteq> None \<and> map_of l2 v \<noteq> None) \<longleftrightarrow>
           (\<forall>(v, l) \<in> set (out_edges G1 n). l \<noteq> None \<and> map_of l1 v \<noteq> None)"
    unfolding s using look by fastforce
  have "mset (map ?g2 (out_edges G2 (f n))) = image_mset (\<lambda>x. ?g2 (?psi x)) (mset (out_edges G1 n))"
    by (simp add: m multiset.map_comp comp_def)
  also have "\<dots> = image_mset ?g1 (mset (out_edges G1 n))"
  proof (rule image_mset_cong)
    fix x assume "x \<in># mset (out_edges G1 n)"
    then have x: "x \<in> set (out_edges G1 n)" by simp
    obtain v l where xx: "x = (v, l)" by (metis surj_pair)
    from look[of v l] x xx show "?g2 (?psi x) = ?g1 x" by simp
  qed
  finally have "mset (map ?g2 (out_edges G2 (f n))) = mset (map ?g1 (out_edges G1 n))"
    by simp
  then have "mset (own # map ?g2 (out_edges G2 (f n))) = mset (own # map ?g1 (out_edges G1 n))"
    by simp
  then have "sort (own # map ?g2 (out_edges G2 (f n))) = sort (own # map ?g1 (out_edges G1 n))"
    by (rule sort_cong_mset)
  with c own show ?thesis
    by (simp add: nei_agg_edges_def nei_strs_cases)
qed

lemma map_of_tabulate: "n \<in> set ns \<Longrightarrow> map_of (map (\<lambda>n. (n, g n)) ns) n = Some (g n)"
  by (induction ns) auto

lemma iso_WL_step_edges:
  assumes "wf_graph G1" "wf_graph G2" "graph_iso f G1 G2" "lab_rel f G1 G2 l1 l2"
  shows "(WL_step_edges G1 l1 = Inl KeyError \<and> WL_step_edges G2 l2 = Inl KeyError) \<or>
     (\<exists>l1' l2'. WL_step_edges G1 l1 = Inr l1' \<and> WL_step_edges G2 l2 = Inr l2' \<and>
        lab_rel f G1 G2 l1' l2' \<and> mset (map snd l2') = mset (map snd l1'))"
proof -
  let ?a1 = "\<lambda>n. projr (nei_agg_edges G1 n l1)"
  let ?a2 = "\<lambda>m. projr (nei_agg_edges G2 m l2)"
  note agg = iso_nei_agg_edges[OF assms]
  from assms(3) have img: "set (nodes G2) = f ` set (nodes G1)" by (simp add: graph_iso_def)
  have c: "(\<forall>m \<in> set (nodes G2). \<exists>s. nei_agg_edges G2 m l2 = Inr s) \<longleftrightarrow>
           (\<forall>n \<in> set (nodes G1). \<exists>s. nei_agg_edges G1 n l1 = Inr s)"
    unfolding img using agg by simp
  show ?thesis
  proof (cases "\<forall>n \<in> set (nodes G1). \<exists>s. nei_agg_edges G1 n l1 = Inr s")
    case False
    with c show ?thesis by (simp add: WL_step_edges_def WL_step_loop_cases)
  next
    case True
    let ?l1' = "map (\<lambda>n. (n, ?a1 n)) (nodes G1)"
    let ?l2' = "map (\<lambda>m. (m, ?a2 m)) (nodes G2)"
    from True c have 1: "WL_step_edges G1 l1 = Inr ?l1'" and 2: "WL_step_edges G2 l2 = Inr ?l2'"
      by (simp_all add: WL_step_edges_def WL_step_loop_cases)
    have r: "lab_rel f G1 G2 ?l1' ?l2'"
      unfolding lab_rel_def
    proof (intro conjI ballI)
      show "map fst ?l1' = nodes G1" by (simp add: comp_def)
      show "map fst ?l2' = nodes G2" by (simp add: comp_def)
      fix n assume n: "n \<in> set (nodes G1)"
      then have "f n \<in> set (nodes G2)" by (simp add: img)
      then have "map_of ?l2' (f n) = Some (?a2 (f n))" by (rule map_of_tabulate)
      moreover from n have "map_of ?l1' n = Some (?a1 n)" by (rule map_of_tabulate)
      ultimately show "map_of ?l2' (f n) = map_of ?l1' n" by (simp add: agg[OF n])
    qed
    have "mset (map snd ?l2') = image_mset ?a2 (mset (nodes G2))" by (simp add: comp_def)
    also have "\<dots> = image_mset (\<lambda>n. ?a2 (f n)) (mset (nodes G1))"
      by (simp add: iso_nodes_mset[OF assms(1-3)] multiset.map_comp comp_def)
    also have "\<dots> = image_mset ?a1 (mset (nodes G1))"
      by (rule image_mset_cong) (simp add: agg)
    finally have "mset (map snd ?l2') = mset (map snd ?l1')" by (simp add: comp_def)
    with 1 2 r show ?thesis by blast
  qed
qed

lemma iso_wl_loop:
  assumes "wf_graph G1" "wf_graph G2" "graph_iso f G1 G2" "lab_rel f G1 G2 l1 l2"
  shows "wl_loop blake2b G1 k l1 items = wl_loop blake2b G2 k l2 items"
  using assms(4)
proof (induction k arbitrary: l1 l2 items)
  case 0
  show ?case by simp
next
  case (Suc k)
  from iso_WL_step_edges[OF assms(1-3) Suc.prems] show ?case
  proof
    assume "WL_step_edges G1 l1 = Inl KeyError \<and> WL_step_edges G2 l2 = Inl KeyError"
    then show ?thesis by simp
  next
    assume "\<exists>l1' l2'. WL_step_edges G1 l1 = Inr l1' \<and> WL_step_edges G2 l2 = Inr l2' \<and>
        lab_rel f G1 G2 l1' l2' \<and> mset (map snd l2') = mset (map snd l1')"
    then obtain l1' l2' where s: "WL_step_edges G1 l1 = Inr l1'" "WL_step_edges G2 l2 = Inr l2'"
      and r: "lab_rel f G1 G2 l1' l2'" and m: "mset (map snd l2') = mset (map snd l1')"
      by blast
    have p: "map (\<lambda>(node, d). blake2b d) l = map blake2b (map snd l)" for l :: "('c \<times> string) list"
      by (simp add: comp_def case_prod_beta)
    have "mset (map blake2b (map snd l1')) = mset (map blake2b (map snd l2'))"
      using m by (metis mset_map)
    then have "counter_items (map (\<lambda>(node, d). blake2b d) l1') =
        counter_items (map (\<lambda>(node, d). blake2b d) l2')"
      unfolding p by (rule counter_items_cong)
    with Suc.IH[OF r] s show ?thesis by simp
  qed
qed

lemma init_node_labels_lookup:
  "n \<in> set (nodes G) \<Longrightarrow> map_of (init_node_labels G) n = Some []"
  unfolding init_node_labels_def by (rule map_of_tabulate)

lemma init_node_labels_keys: "map fst (init_node_labels G) = nodes G"
  by (simp add: init_node_labels_def comp_def)

lemma iso_wl:
  assumes "wf_graph G1" "wf_graph G2" "graph_iso f G1 G2"
  shows "wl blake2b G1 k = wl blake2b G2 k"
proof -
  have "f n \<in> set (nodes G2)" if "n \<in> set (nodes G1)" for n
    using assms(3) that by (auto simp: graph_iso_def)
  then have "lab_rel f G1 G2 (init_node_labels G1) (init_node_labels G2)"
    by (simp add: lab_rel_def init_node_labels_keys init_node_labels_lookup)
  from iso_wl_loop[OF assms this] show ?thesis by (simp add: wl_def)
qed

lemma iso_canonicalize_edges:
  assumes "wf_graph G1" "wf_graph G2" "graph_iso f G1 G2"
  shows "(\<exists>es1. canonicalize_edges (edges G1) = Inr es1) \<longleftrightarrow>
         (\<exists>es2. canonicalize_edges (edges G2) = Inr es2)"
proof -
  from assms(3) have s: "set (edges G2) = (\<lambda>((u, v), l). ((f u, f v), l)) ` set (edges G1)"
    by (simp add: graph_iso_def)
  show ?thesis
    unfolding canonicalize_edges_iff s by fastforce
qed

lemma canonicalized_wf_iso:
  assumes "wf_graph G1" "wf_graph G2" "graph_iso f G1 G2"
    and "canonicalize_edges (edges G1) = Inr es1" "canonicalize_edges (edges G2) = Inr es2"
  shows "wf_graph (G1\<lparr>edges := es1\<rparr>)" "wf_graph (G2\<lparr>edges := es2\<rparr>)"
    "graph_iso f (G1\<lparr>edges := es1\<rparr>) (G2\<lparr>edges := es2\<rparr>)"
proof -
  let ?c = "\<lambda>(k, l). (k, Some (canon_total (the l)))"
  let ?phi = "\<lambda>((u, v), l). ((f u, f v), l)"
  from canonicalize_edges_Inr_map[OF assms(4)] have e1: "es1 = map ?c (edges G1)" by simp
  from canonicalize_edges_Inr_map[OF assms(5)] have e2: "es2 = map ?c (edges G2)" by simp
  have k: "fst \<circ> ?c = (fst :: ('c \<times> 'c) \<times> string option \<Rightarrow> 'c \<times> 'c)" for dummy :: 'c
    by (auto simp: fun_eq_iff)
  have w: "wf_graph (G\<lparr>edges := map ?c (edges G)\<rparr>)" if "wf_graph G" for G :: "'c graph"
    using that unfolding wf_graph_def by (auto simp: k list_all_iff)
  from w[OF assms(1)] e1 show "wf_graph (G1\<lparr>edges := es1\<rparr>)" by simp
  from w[OF assms(2)] e2 show "wf_graph (G2\<lparr>edges := es2\<rparr>)" by simp
  from assms(3) have s: "set (edges G2) = ?phi ` set (edges G1)"
    by (simp add: graph_iso_def)
  have "?c ` ?phi ` set (edges G1) = ?phi ` ?c ` set (edges G1)"
    by (force simp: image_iff)
  with s have "set es2 = ?phi ` set es1" by (simp add: e1 e2)
  with assms(3) show "graph_iso f (G1\<lparr>edges := es1\<rparr>) (G2\<lparr>edges := es2\<rparr>)"
    by (simp add: graph_iso_def)
qed

text \<open>
  C1. Let \<open>G1\<close> and \<open>G2\<close> be networkx graphs (\<open>wf_graph\<close>) and \<open>f\<close> a node bijection
  from \<open>G1\<close> to \<open>G2\<close> that preserves node labels and edge labels. Then, for the same
  hasher (the same canonicalisation setting and the same iteration count, whatever it
  is) and the same BLAKE2b function, \<^verbatim>\<open>Hasher.hash\<close> returns the same digest on both,
  or raises on both.
\<close>

theorem hash_isomorphism_invariant:
  assumes "wf_graph G1" "wf_graph G2" "graph_iso f G1 G2"
  shows "digest_of (hash blake2b self G1) = digest_of (hash blake2b self G2)"
proof (cases "symmetric_edges self")
  case False
  then show ?thesis
    by (simp add: hash_def digest_of_def iso_wl[OF assms] split: sum.splits)
next
  case True
  show ?thesis
  proof (cases "canonicalize_edges (edges G1)")
    case (Inl e)
    with iso_canonicalize_edges[OF assms] obtain e' where "canonicalize_edges (edges G2) = Inl e'"
      by (cases "canonicalize_edges (edges G2)") auto
    with Inl True show ?thesis by (simp add: hash_def digest_of_def)
  next
    case (Inr es1)
    with iso_canonicalize_edges[OF assms] obtain es2 where es2: "canonicalize_edges (edges G2) = Inr es2"
      by blast
    note c = canonicalized_wf_iso[OF assms Inr es2]
    from iso_wl[OF c] Inr es2 True show ?thesis
      by (simp add: hash_def digest_of_def split: sum.splits)
  qed
qed

lemma doc_wf: "wf_graph G1_doc" "wf_graph G2_doc"
  by (simp_all add: wf_graph_def G1_doc_def G2_doc_def)

lemma doc_iso: "graph_iso relabel G1_doc G2_doc"
  by (auto simp: graph_iso_def G1_doc_def G2_doc_def relabel_def)

lemma doc_digest: "digest_of (hash id default_hasher G1_doc) \<noteq> None"
  by code_simp

theorem hash_isomorphism_invariant_witness:
  "wf_graph G1_doc \<and> wf_graph G2_doc \<and> graph_iso relabel G1_doc G2_doc \<and>
   digest_of (hash id default_hasher G1_doc) = digest_of (hash id default_hasher G2_doc) \<and>
   digest_of (hash id default_hasher G1_doc) \<noteq> None"
  using hash_isomorphism_invariant [OF doc_wf doc_iso, of id default_hasher] doc_wf doc_iso
    doc_digest
  by simp

subsection \<open>Graphlets are independent copies\<close>

lemma deref_cong:
  "(\<And>a. a \<in> snd ` set refs \<Longrightarrow> cells h' a = cells h a) \<Longrightarrow> deref h' refs = deref h refs"
  by (force simp: deref_def)

lemma graph_of_cong:
  assumes "\<And>a. a \<in> addrs g \<Longrightarrow> cells h' a = cells h a"
  shows "graph_of h' g = graph_of h g"
proof -
  have "deref h' (node_refs g) = deref h (node_refs g)"
    by (rule deref_cong) (simp add: assms addrs_def)
  moreover have "deref h' (edge_refs g) = deref h (edge_refs g)"
    by (rule deref_cong) (simp add: assms addrs_def)
  ultimately show ?thesis by (simp add: graph_of_def)
qed

lemma obj_valid_addrs: "obj_valid h g \<Longrightarrow> a \<in> addrs g \<Longrightarrow> a < next_free h"
  by (auto simp: obj_valid_def addrs_def list_all_iff)

lemma copy_refs_next:
  "copy_refs h refs = (h', refs') \<Longrightarrow> next_free h' = next_free h + length refs"
  by (induction refs arbitrary: h h' refs') (auto simp: alloc_def split: prod.splits)

lemma copy_refs_old:
  "copy_refs h refs = (h', refs') \<Longrightarrow> a < next_free h \<Longrightarrow> cells h' a = cells h a"
proof (induction refs arbitrary: h h' refs')
  case Nil
  then show ?case by simp
next
  case (Cons x refs)
  obtain k b where x: "x = (k, b)" by (cases x)
  define h1 where "h1 = snd (alloc h (cells h b))"
  from Cons.prems(1) x obtain r2 where c: "copy_refs h1 refs = (h', r2)"
    by (auto simp: h1_def alloc_def split: prod.splits)
  from Cons.prems(2) have "a < next_free h1" by (simp add: h1_def alloc_def)
  from Cons.IH[OF c this] Cons.prems(2) show ?case by (simp add: h1_def alloc_def)
qed

lemma copy_refs_keys:
  "copy_refs h refs = (h', refs') \<Longrightarrow> map fst refs' = map fst refs"
  by (induction refs arbitrary: h h' refs') (auto simp: alloc_def split: prod.splits)

lemma copy_refs_new:
  "copy_refs h refs = (h', refs') \<Longrightarrow> a \<in> snd ` set refs' \<Longrightarrow>
     next_free h \<le> a \<and> a < next_free h'"
proof (induction refs arbitrary: h h' refs')
  case Nil
  then show ?case by simp
next
  case (Cons x refs)
  obtain k b where x: "x = (k, b)" by (cases x)
  define h1 where "h1 = snd (alloc h (cells h b))"
  from Cons.prems(1) x obtain r2 where c: "copy_refs h1 refs = (h', r2)"
    and r: "refs' = (k, next_free h) # r2"
    by (auto simp: h1_def alloc_def split: prod.splits)
  have n1: "next_free h1 = Suc (next_free h)" by (simp add: h1_def alloc_def)
  from copy_refs_next[OF c] n1 have n': "next_free h < next_free h'" by simp
  from Cons.prems(2) r have "a = next_free h \<or> a \<in> snd ` set r2" by auto
  then show ?case
  proof
    assume "a = next_free h"
    with n' show ?thesis by simp
  next
    assume "a \<in> snd ` set r2"
    from Cons.IH[OF c this] n1 show ?thesis by simp
  qed
qed

lemma copy_refs_deref:
  "copy_refs h refs = (h', refs') \<Longrightarrow> list_all (\<lambda>(k, a). a < next_free h) refs \<Longrightarrow>
     deref h' refs' = deref h refs"
proof (induction refs arbitrary: h h' refs')
  case Nil
  then show ?case by (simp add: deref_def)
next
  case (Cons x refs)
  obtain k b where x: "x = (k, b)" by (cases x)
  define h1 where "h1 = snd (alloc h (cells h b))"
  from Cons.prems(1) x obtain r2 where c: "copy_refs h1 refs = (h', r2)"
    and r: "refs' = (k, next_free h) # r2"
    by (auto simp: h1_def alloc_def split: prod.splits)
  have n1: "next_free h1 = Suc (next_free h)" by (simp add: h1_def alloc_def)
  from Cons.prems(2) have v: "list_all (\<lambda>(k, a). a < next_free h) refs" by simp
  then have "list_all (\<lambda>(k, a). a < next_free h1) refs"
    by (auto simp: n1 list_all_iff)
  from Cons.IH[OF c this] have "deref h' r2 = deref h1 refs" .
  also have "\<dots> = deref h refs"
    using v by (intro deref_cong) (auto simp: h1_def alloc_def list_all_iff)
  finally have t: "deref h' r2 = deref h refs" .
  have "cells h' (next_free h) = cells h1 (next_free h)"
    by (rule copy_refs_old[OF c]) (simp add: n1)
  then have "cells h' (next_free h) = cells h b" by (simp add: h1_def alloc_def)
  with t r x show ?case by (simp add: deref_def)
qed

lemma map_of_filter_key:
  "map_of (filter (\<lambda>(k, v). k \<in> S) xs) n = (if n \<in> S then map_of xs n else None)"
  by (induction xs) auto

lemma deref_filter:
  "deref h (filter (\<lambda>(k, a). P k) refs) = filter (\<lambda>(k, v). P k) (deref h refs)"
  by (induction refs) (auto simp: deref_def)

lemma deref_filter_edges:
  "deref h (filter (\<lambda>((u, v), a). P u v) es) = filter (\<lambda>((u, v), l). P u v) (deref h es)"
  by (induction es) (auto simp: deref_def)

lemma deref_keys: "map fst (deref h refs) = map fst refs"
  by (induction refs) (auto simp: deref_def)

lemma subgraph_copy_obj_props:
  assumes "subgraph_copy_obj h g ns = (h', g')" "obj_valid h g"
  shows "next_free h \<le> next_free h'"
    and "\<And>a. a < next_free h \<Longrightarrow> cells h' a = cells h a"
    and "\<And>a. a \<in> addrs g' \<Longrightarrow> next_free h \<le> a \<and> a < next_free h'"
    and "graph_of h' g' = subgraph_copy (graph_of h g) ns"
proof -
  let ?N = "filter (\<lambda>(n, a). n \<in> set ns) (node_refs g)"
  let ?E = "filter (\<lambda>((u, v), a). u \<in> set ns \<and> v \<in> set ns) (edge_refs g)"
  obtain h1 nrefs where c1: "copy_refs h ?N = (h1, nrefs)" by (cases "copy_refs h ?N")
  obtain h2 erefs where c2: "copy_refs h1 ?E = (h2, erefs)" by (cases "copy_refs h1 ?E")
  from assms(1) c1 c2 have h': "h' = h2" and g': "g' = \<lparr>node_refs = nrefs, edge_refs = erefs\<rparr>"
    by (simp_all add: subgraph_copy_obj_def)
  from copy_refs_next[OF c1] have n1: "next_free h \<le> next_free h1" by simp
  from copy_refs_next[OF c2] have n2: "next_free h1 \<le> next_free h2" by simp
  from n1 n2 h' show "next_free h \<le> next_free h'" by simp
  show old: "cells h' a = cells h a" if "a < next_free h" for a
    using copy_refs_old[OF c2, of a] copy_refs_old[OF c1 that] that n1 h' by simp
  show "next_free h \<le> a \<and> a < next_free h'" if "a \<in> addrs g'" for a
  proof -
    from that g' have "a \<in> snd ` set nrefs \<or> a \<in> snd ` set erefs" by (simp add: addrs_def)
    then show ?thesis
    proof
      assume "a \<in> snd ` set nrefs"
      from copy_refs_new[OF c1 this] n2 h' show ?thesis by simp
    next
      assume "a \<in> snd ` set erefs"
      from copy_refs_new[OF c2 this] n1 h' show ?thesis by simp
    qed
  qed
  from assms(2) have vN: "list_all (\<lambda>(k, a). a < next_free h) ?N"
    and vE: "list_all (\<lambda>(k, a). a < next_free h) ?E"
    by (auto simp: obj_valid_def list_all_iff)
  from vE n1 have vE1: "list_all (\<lambda>(k, a). a < next_free h1) ?E"
    unfolding list_all_iff by fastforce
  have "deref h2 erefs = deref h1 ?E" by (rule copy_refs_deref[OF c2 vE1])
  also have "\<dots> = deref h ?E"
    using vE by (intro deref_cong copy_refs_old[OF c1]) (auto simp: list_all_iff)
  finally have e: "deref h2 erefs = deref h ?E" .
  have "deref h2 nrefs = deref h1 nrefs"
    by (intro deref_cong copy_refs_old[OF c2]) (use copy_refs_new[OF c1] in blast)
  also have "\<dots> = deref h ?N" by (rule copy_refs_deref[OF c1 vN])
  finally have n: "deref h2 nrefs = deref h ?N" .
  have k: "map fst nrefs = filter (\<lambda>n. n \<in> set ns) (map fst (node_refs g))"
    by (simp add: copy_refs_keys[OF c1] filter_map comp_def case_prod_unfold)
  have fE: "deref h ?E = filter (\<lambda>((u, v), l). u \<in> set ns \<and> v \<in> set ns) (deref h (edge_refs g))"
    by (rule deref_filter_edges)
  have fN: "deref h ?N = filter (\<lambda>(k, v). k \<in> set ns) (deref h (node_refs g))"
    by (rule deref_filter)
  show "graph_of h' g' = subgraph_copy (graph_of h g) ns"
    by (simp add: graph_of_def subgraph_copy_def h' g' e n k fE fN map_of_filter_key fun_eq_iff)
qed

lemma canonicalize_edges_obj_frame:
  "canonicalize_edges_obj h es = (r, h') \<Longrightarrow>
     next_free h' = next_free h \<and> (a \<notin> snd ` set es \<longrightarrow> cells h' a = cells h a)"
proof (induction es arbitrary: h)
  case Nil
  then show ?case by simp
next
  case (Cons x es)
  obtain uv b where x: "x = (uv, b)" by (cases x)
  show ?case
  proof (cases "cells h b")
    case None
    with Cons.prems x show ?thesis by simp
  next
    case (Some label)
    show ?thesis
    proof (cases "canonicalize label")
      case (Inl e)
      with Cons.prems x Some show ?thesis by simp
    next
      case (Inr l')
      with Cons.prems x Some
      have "canonicalize_edges_obj (h\<lparr>cells := (cells h)(b := Some l')\<rparr>) es = (r, h')" by simp
      from Cons.IH[OF this] x show ?thesis by auto
    qed
  qed
qed

lemma hash_obj_frame:
  assumes "hash_obj blake2b self h g = (r, h')"
  shows "next_free h' = next_free h"
    and "a \<notin> snd ` set (edge_refs g) \<Longrightarrow> cells h' a = cells h a"
proof -
  have "next_free h' = next_free h \<and> (a \<notin> snd ` set (edge_refs g) \<longrightarrow> cells h' a = cells h a)"
  proof (cases "symmetric_edges self")
    case False
    with assms show ?thesis by (simp add: hash_obj_def)
  next
    case True
    obtain r0 h0 where c: "canonicalize_edges_obj h (edge_refs g) = (r0, h0)"
      by (cases "canonicalize_edges_obj h (edge_refs g)")
    with assms True have "h' = h0" by (cases r0) (simp_all add: hash_obj_def)
    with canonicalize_edges_obj_frame[OF c, of a] show ?thesis by simp
  qed
  then show "next_free h' = next_free h"
    and "a \<notin> snd ` set (edge_refs g) \<Longrightarrow> cells h' a = cells h a" by simp_all
qed

lemma write_frame:
  assumes "a \<notin> addrs g"
  shows "graph_of (h\<lparr>cells := (cells h)(a := v)\<rparr>) g = graph_of h g"
  by (rule graph_of_cong) (use assms in auto)

lemma copy_refs_addrs:
  "copy_refs h refs = (h', refs') \<Longrightarrow> map snd refs' = [next_free h ..< next_free h + length refs]"
proof (induction refs arbitrary: h h' refs')
  case Nil
  then show ?case by simp
next
  case (Cons x refs)
  obtain k b where x: "x = (k, b)" by (cases x)
  define h1 where "h1 = snd (alloc h (cells h b))"
  from Cons.prems(1) x obtain r2 where c: "copy_refs h1 refs = (h', r2)"
    and r: "refs' = (k, next_free h) # r2"
    by (auto simp: h1_def alloc_def split: prod.splits)
  have n1: "next_free h1 = Suc (next_free h)" by (simp add: h1_def alloc_def)
  have "[next_free h ..< next_free h + length (x # refs)] =
      next_free h # [Suc (next_free h) ..< next_free h + length (x # refs)]"
    by (rule upt_conv_Cons) simp
  with Cons.IH[OF c] r n1 show ?case by simp
qed

lemma subgraph_copy_obj_unshared:
  assumes "subgraph_copy_obj h g ns = (h', g')"
  shows "obj_unshared g'"
proof -
  let ?N = "filter (\<lambda>(n, a). n \<in> set ns) (node_refs g)"
  let ?E = "filter (\<lambda>((u, v), a). u \<in> set ns \<and> v \<in> set ns) (edge_refs g)"
  obtain h1 nrefs where c1: "copy_refs h ?N = (h1, nrefs)" by (cases "copy_refs h ?N")
  obtain h2 erefs where c2: "copy_refs h1 ?E = (h2, erefs)" by (cases "copy_refs h1 ?E")
  from assms(1) c1 c2 have g': "g' = \<lparr>node_refs = nrefs, edge_refs = erefs\<rparr>"
    by (simp_all add: subgraph_copy_obj_def)
  have "map snd nrefs @ map snd erefs =
      [next_free h ..< next_free h + length ?N] @ [next_free h1 ..< next_free h1 + length ?E]"
    by (simp only: copy_refs_addrs[OF c1] copy_refs_addrs[OF c2])
  also have "\<dots> = [next_free h ..< next_free h + length ?N + length ?E]"
    by (simp only: copy_refs_next[OF c1] upt_add_eq_append[OF le_add1, symmetric])
  finally show ?thesis by (simp add: obj_unshared_def g')
qed

lemma canonicalize_edges_obj_refines:
  assumes "distinct (map snd es)"
  shows "case canonicalize_edges (deref h es) of
           Inl e \<Rightarrow> fst (canonicalize_edges_obj h es) = Some e
         | Inr es' \<Rightarrow> fst (canonicalize_edges_obj h es) = None \<and>
                       deref (snd (canonicalize_edges_obj h es)) es = es'"
  using assms
proof (induction es arbitrary: h)
  case Nil
  show ?case by (simp add: deref_def)
next
  case (Cons x es)
  obtain uv a where x: "x = (uv, a)" by (cases x)
  from Cons.prems x have na: "a \<notin> snd ` set es" and d: "distinct (map snd es)" by auto
  have dx: "deref h ((uv, a) # es) = (uv, cells h a) # deref h es" by (simp add: deref_def)
  show ?case
    unfolding x
  proof (cases "cells h a")
    case None
    then have "canonicalize_edges (deref h ((uv, a) # es)) = Inl KeyError"
      and "canonicalize_edges_obj h ((uv, a) # es) = (Some KeyError, h)"
      by (simp_all add: dx)
    then show "case canonicalize_edges (deref h ((uv, a) # es)) of
           Inl e \<Rightarrow> fst (canonicalize_edges_obj h ((uv, a) # es)) = Some e
         | Inr es' \<Rightarrow> fst (canonicalize_edges_obj h ((uv, a) # es)) = None \<and>
                       deref (snd (canonicalize_edges_obj h ((uv, a) # es))) ((uv, a) # es) = es'"
      by simp
  next
    case (Some label)
    show "case canonicalize_edges (deref h ((uv, a) # es)) of
           Inl e \<Rightarrow> fst (canonicalize_edges_obj h ((uv, a) # es)) = Some e
         | Inr es' \<Rightarrow> fst (canonicalize_edges_obj h ((uv, a) # es)) = None \<and>
                       deref (snd (canonicalize_edges_obj h ((uv, a) # es))) ((uv, a) # es) = es'"
    proof (cases "canonicalize label")
      case (Inl e)
      with Some have "canonicalize_edges (deref h ((uv, a) # es)) = Inl e"
        and "canonicalize_edges_obj h ((uv, a) # es) = (Some e, h)"
        by (simp_all add: dx)
      then show ?thesis by simp
    next
      case (Inr l')
      define h1 where "h1 = h\<lparr>cells := (cells h)(a := Some l')\<rparr>"
      have same: "deref h1 es = deref h es"
        by (rule deref_cong) (use na in \<open>auto simp: h1_def\<close>)
      obtain r h' where c: "canonicalize_edges_obj h1 es = (r, h')"
        by (cases "canonicalize_edges_obj h1 es")
      from canonicalize_edges_obj_frame[OF c, of a] na have "cells h' a = Some l'"
        by (simp add: h1_def)
      then have dh': "deref h' ((uv, a) # es) = (uv, Some l') # deref h' es"
        by (simp add: deref_def)
      have step: "canonicalize_edges_obj h ((uv, a) # es) = (r, h')"
        using Some Inr c by (simp add: h1_def)
      have ce: "canonicalize_edges (deref h ((uv, a) # es)) =
          (case canonicalize_edges (deref h es) of
             Inl e \<Rightarrow> Inl e | Inr es' \<Rightarrow> Inr ((uv, Some l') # es'))"
        using Some Inr by (simp add: dx)
      note ih = Cons.IH[OF d, of h1, unfolded same c]
      show ?thesis
      proof (cases "canonicalize_edges (deref h es)")
        case e: (Inl e)
        with ih have "r = Some e" by simp
        with e show ?thesis by (simp add: ce step del: canonicalize_edges_obj.simps)
      next
        case r': (Inr es')
        with ih have "r = None" "deref h' es = es'" by simp_all
        with r' show ?thesis by (simp add: ce step dh' del: canonicalize_edges_obj.simps)
      qed
    qed
  qed
qed

lemma hash_obj_refines:
  assumes "obj_unshared g"
  shows "fst (hash_obj blake2b self h g) = map_sum id snd (hash blake2b self (graph_of h g))"
    and "hash blake2b self (graph_of h g) = Inr (G', d) \<Longrightarrow>
         graph_of (snd (hash_obj blake2b self h g)) g = G'"
proof -
  from assms have de: "distinct (map snd (edge_refs g))"
    and dis: "snd ` set (node_refs g) \<inter> snd ` set (edge_refs g) = {}"
    by (auto simp: obj_unshared_def)
  have both: "fst (hash_obj blake2b self h g) = map_sum id snd (hash blake2b self (graph_of h g)) \<and>
     (\<forall>G' d. hash blake2b self (graph_of h g) = Inr (G', d) \<longrightarrow>
        graph_of (snd (hash_obj blake2b self h g)) g = G')"
  proof (cases "symmetric_edges self")
    case False
    then show ?thesis by (auto simp: hash_obj_def hash_def split: sum.splits)
  next
    case True
    obtain r h' where c: "canonicalize_edges_obj h (edge_refs g) = (r, h')"
      by (cases "canonicalize_edges_obj h (edge_refs g)")
    have e: "edges (graph_of h g) = deref h (edge_refs g)" by (simp add: graph_of_def)
    note ref = canonicalize_edges_obj_refines[OF de, of h]
    show ?thesis
    proof (cases "canonicalize_edges (deref h (edge_refs g))")
      case (Inl e')
      with ref c have "r = Some e'" by simp
      with Inl c True show ?thesis by (simp add: hash_obj_def hash_def e)
    next
      case (Inr es')
      with ref c have r: "r = None" and es': "deref h' (edge_refs g) = es'" by simp_all
      have "deref h' (node_refs g) = deref h (node_refs g)"
        by (rule deref_cong) (use canonicalize_edges_obj_frame[OF c] dis in blast)
      with es' have G: "graph_of h' g = (graph_of h g)\<lparr>edges := es'\<rparr>"
        by (simp add: graph_of_def)
      from Inr c r True G show ?thesis
        by (auto simp: hash_obj_def hash_def e split: sum.splits)
    qed
  qed
  from both show "fst (hash_obj blake2b self h g) = map_sum id snd (hash blake2b self (graph_of h g))"
    by simp
  from both show "hash blake2b self (graph_of h g) = Inr (G', d) \<Longrightarrow>
         graph_of (snd (hash_obj blake2b self h g)) g = G'" by simp
qed

lemma extract_graphlet_obj_props:
  assumes "extract_graphlet_obj h G n sz = (h', g')" "obj_valid h G"
  shows "next_free h \<le> next_free h'"
    and "\<And>a. a < next_free h \<Longrightarrow> cells h' a = cells h a"
    and "\<And>a. a \<in> addrs g' \<Longrightarrow> next_free h \<le> a \<and> a < next_free h'"
    and "graph_of h' g' = extract_graphlet (graph_of h G) n sz"
    and "obj_unshared g'"
  using subgraph_copy_obj_props[OF assms(1)[unfolded extract_graphlet_obj_def] assms(2)]
    subgraph_copy_obj_unshared[OF assms(1)[unfolded extract_graphlet_obj_def]]
  by (simp_all add: extract_graphlet_def)

lemma frame_below:
  assumes "\<And>a. a < k \<Longrightarrow> cells h' a = cells h a" "\<And>a. a \<in> addrs g \<Longrightarrow> a < k"
  shows "graph_of h' g = graph_of h g"
  by (rule graph_of_cong) (simp add: assms)

lemma frame_disjoint:
  assumes "\<And>a. a \<notin> W \<Longrightarrow> cells h' a = cells h a" "addrs g \<inter> W = {}"
  shows "graph_of h' g = graph_of h g"
  by (rule graph_of_cong) (use assms in blast)

text \<open>
  C7. In a store where the graph \<open>G\<close> is allocated, let two graphlets \<open>g1\<close> and \<open>g2\<close>
  be extracted from \<open>G\<close> one after the other and then hashed one after the other.
  The graph that \<open>G\<close> denotes is the same after each of the four calls. Each
  graphlet is the induced subgraph that \<^verbatim>\<open>extract_graphlet\<close> returns on values; the
  second extraction leaves the first graphlet as it is, hashing \<open>g1\<close> leaves \<open>g2\<close>
  as it is, and hashing \<open>g2\<close> leaves \<open>g1\<close> as it is. On a graphlet the call on
  objects returns what \<^verbatim>\<open>Hasher.hash\<close> returns on the graph it denotes. Any single
  write to the label of an edge of \<open>g1\<close> leaves \<open>G\<close> and \<open>g2\<close> as they are.
\<close>

theorem extract_graphlet_independent_copy:
  assumes "obj_valid h0 G"
    and "extract_graphlet_obj h0 G n size1 = (h1, g1)"
    and "extract_graphlet_obj h1 G m size2 = (h2, g2)"
    and "hash_obj blake2b self h2 g1 = (r1, h3)"
    and "hash_obj blake2b self h3 g2 = (r2, h4)"
  shows "graph_of h1 G = graph_of h0 G \<and> graph_of h2 G = graph_of h0 G \<and>
     graph_of h3 G = graph_of h0 G \<and> graph_of h4 G = graph_of h0 G \<and>
     graph_of h1 g1 = extract_graphlet (graph_of h0 G) n size1 \<and>
     graph_of h2 g2 = extract_graphlet (graph_of h0 G) m size2 \<and>
     graph_of h2 g1 = graph_of h1 g1 \<and>
     graph_of h3 g2 = graph_of h2 g2 \<and>
     graph_of h4 g1 = graph_of h3 g1 \<and>
     r1 = map_sum id snd (hash blake2b self (graph_of h2 g1)) \<and>
     r2 = map_sum id snd (hash blake2b self (graph_of h3 g2)) \<and>
     (a \<in> snd ` set (edge_refs g1) \<longrightarrow>
        graph_of (h2\<lparr>cells := (cells h2)(a := v)\<rparr>) G = graph_of h2 G \<and>
        graph_of (h2\<lparr>cells := (cells h2)(a := v)\<rparr>) g2 = graph_of h2 g2)"
proof -
  note e1 = extract_graphlet_obj_props[OF assms(2,1)]
  have G0: "a < next_free h0" if "a \<in> addrs G" for a
    using obj_valid_addrs[OF assms(1) that] .
  have v1: "obj_valid h1 G"
    using assms(1) e1(1) unfolding obj_valid_def list_all_iff by fastforce
  note e2 = extract_graphlet_obj_props[OF assms(3) v1]
  have G1: "graph_of h1 G = graph_of h0 G"
    by (rule frame_below[where k = "next_free h0"]) (simp_all add: e1(2) G0)
  have G2': "graph_of h2 G = graph_of h1 G"
    by (rule frame_below[where k = "next_free h1"]) (use e2(2) G0 e1(1) in \<open>auto dest: G0\<close>)
  have g1_2: "graph_of h2 g1 = graph_of h1 g1"
    by (rule frame_below[where k = "next_free h1"]) (use e2(2) e1(3) in auto)
  let ?W1 = "snd ` set (edge_refs g1)"
  let ?W2 = "snd ` set (edge_refs g2)"
  have W1: "?W1 \<subseteq> addrs g1" and W2: "?W2 \<subseteq> addrs g2" by (auto simp: addrs_def)
  have dG1: "addrs G \<inter> ?W1 = {}"
    using G0 e1(3) W1 by fastforce
  have dG2: "addrs G \<inter> ?W2 = {}"
    using G0 e2(3) W2 e1(1) by fastforce
  have d12: "addrs g2 \<inter> ?W1 = {}"
    using e1(3) e2(3) W1 by fastforce
  have d21: "addrs g1 \<inter> ?W2 = {}"
    using e1(3) e2(3) W2 by fastforce
  note f3 = hash_obj_frame(2)[OF assms(4)]
  note f4 = hash_obj_frame(2)[OF assms(5)]
  have G3: "graph_of h3 G = graph_of h2 G" by (rule frame_disjoint[OF f3 dG1])
  have g2_3: "graph_of h3 g2 = graph_of h2 g2" by (rule frame_disjoint[OF f3 d12])
  have G4: "graph_of h4 G = graph_of h3 G" by (rule frame_disjoint[OF f4 dG2])
  have g1_4: "graph_of h4 g1 = graph_of h3 g1" by (rule frame_disjoint[OF f4 d21])
  have r1: "r1 = map_sum id snd (hash blake2b self (graph_of h2 g1))"
    using hash_obj_refines(1)[OF e1(5), of blake2b self h2] assms(4) by simp
  have r2: "r2 = map_sum id snd (hash blake2b self (graph_of h3 g2))"
    using hash_obj_refines(1)[OF e2(5), of blake2b self h3] assms(5) by simp
  have w: "graph_of (h2\<lparr>cells := (cells h2)(a := v)\<rparr>) G = graph_of h2 G \<and>
        graph_of (h2\<lparr>cells := (cells h2)(a := v)\<rparr>) g2 = graph_of h2 g2" if "a \<in> ?W1"
  proof -
    from that dG1 d12 have "a \<notin> addrs G" "a \<notin> addrs g2" by auto
    then show ?thesis by (simp add: write_frame)
  qed
  from G1 G2' G3 G4 e1(4) e2(4) g1_2 g2_3 g1_4 r1 r2 w show ?thesis by simp
qed

lemma ex_valid: "obj_valid h_ex G_obj"
  by (simp add: obj_valid_def h_ex_def G_obj_def)

lemma ex_edges_G: "edges (graph_of h_ex G_obj) = [((1, 2), Some ''CWH''), ((2, 1), Some ''CHW'')]"
  by (simp add: graph_of_def deref_def h_ex_def G_obj_def)

lemma ex_edges_g1:
  "edges (graph_of (snd hx1) (snd ex1)) = [((1, 2), Some ''CHW''), ((2, 1), Some ''CHW'')]"
  by code_simp

lemma ex_edges_g2:
  "edges (graph_of (fst ex2) (snd ex2)) = [((1, 2), Some ''CWH''), ((2, 1), Some ''CHW'')]"
  by code_simp

theorem extract_graphlet_independent_copy_witness:
  "obj_valid h_ex G_obj \<and>
   edges (graph_of h_ex G_obj) = [((1, 2), Some ''CWH''), ((2, 1), Some ''CHW'')] \<and>
   edges (graph_of (snd hx1) (snd ex1)) = [((1, 2), Some ''CHW''), ((2, 1), Some ''CHW'')] \<and>
   edges (graph_of (snd hx1) G_obj) = [((1, 2), Some ''CWH''), ((2, 1), Some ''CHW'')] \<and>
   edges (graph_of (snd hx1) (snd ex2)) = [((1, 2), Some ''CWH''), ((2, 1), Some ''CHW'')] \<and>
   graph_of (snd hx2) G_obj = graph_of h_ex G_obj"
proof -
  have 1: "extract_graphlet_obj h_ex G_obj 1 1 = (fst ex1, snd ex1)" by (simp add: ex1_def)
  have 2: "extract_graphlet_obj (fst ex1) G_obj 2 1 = (fst ex2, snd ex2)" by (simp add: ex2_def)
  have 3: "hash_obj id default_hasher (fst ex2) (snd ex1) = (fst hx1, snd hx1)" by (simp add: hx1_def)
  have 4: "hash_obj id default_hasher (snd hx1) (snd ex2) = (fst hx2, snd hx2)" by (simp add: hx2_def)
  from extract_graphlet_independent_copy [OF ex_valid 1 2 3 4]
  have "graph_of (snd hx1) G_obj = graph_of h_ex G_obj"
    and "graph_of (snd hx2) G_obj = graph_of h_ex G_obj"
    and "graph_of (snd hx1) (snd ex2) = graph_of (fst ex2) (snd ex2)"
    by simp_all
  with ex_valid ex_edges_G ex_edges_g1 ex_edges_g2 show ?thesis by simp
qed

subsection \<open>Further properties\<close>

text \<open>
  The conversions of lines 227 and 233 in exact arithmetic: for a distance \<open>d \<ge> 0\<close>
  and \<open>beta > 0\<close> the similarity is in \<open>(0, 1]\<close> and is 1 only for \<open>d = 0\<close>, the
  normalised distance is in \<open>[0, 1)\<close> and is 0 only for \<open>d = 0\<close>. It is the rounding
  of the doubles that closes the intervals.
\<close>

lemma conversions_over_the_reals:
  fixes d beta :: real
  assumes "0 \<le> d" "0 < beta"
  shows "0 < exp (- beta * d) \<and> exp (- beta * d) \<le> 1 \<and> (exp (- beta * d) = 1 \<longleftrightarrow> d = 0) \<and>
     0 \<le> 1 - exp (- beta * d) \<and> 1 - exp (- beta * d) < 1 \<and>
     (1 - exp (- beta * d) = 0 \<longleftrightarrow> d = 0)"
proof -
  from assms have "- beta * d \<le> 0" by (simp add: mult_nonneg_nonneg)
  then have le: "exp (- beta * d) \<le> 1" by simp
  have "exp (- beta * d) = 1 \<longleftrightarrow> - beta * d = 0" by (rule exp_eq_one_iff)
  also have "\<dots> \<longleftrightarrow> d = 0" using assms(2) by simp
  finally have eq: "exp (- beta * d) = 1 \<longleftrightarrow> d = 0" .
  from le eq show ?thesis by auto
qed

text \<open>
  Canonicalisation is symmetric in the two faces: a label with orientation \<open>ori\<close>
  and faces \<open>f1\<close>, \<open>f2\<close> and the label with the faces exchanged have the same
  canonical form, unless one of them is the exempt label \<^verbatim>\<open>'B53'\<close>.
\<close>

theorem canonicalize_symmetric:
  assumes "[ori, f1, f2] \<noteq> ''B53''" "[ori, f2, f1] \<noteq> ''B53''"
  shows "canonicalize [ori, f1, f2] = canonicalize [ori, f2, f1]"
proof -
  have "sort [f1, f2] = sort [f2, f1]" by (cases "f1 \<le> f2"; cases "f2 \<le> f1") auto
  then have "ori # sort [f1, f2] = ori # sort [f2, f1]" by (simp only:)
  with assms show ?thesis by (simp only: canonicalize_def list.case if_True not_False_eq_True)
qed

theorem canonicalize_symmetric_witness:
  "canonicalize ''CWH'' = canonicalize ''CHW'' \<and> canonicalize ''CHW'' = Inr ''CHW''"
  using canonicalize_symmetric [of "CHR ''C''" "CHR ''W''" "CHR ''H''"]
  by (simp add: canonicalize_def)

text \<open>
  \<^verbatim>\<open>'B35'\<close> and \<^verbatim>\<open>'B53'\<close> are a pair with exchanged faces that canonicalise
  differently, since \<^verbatim>\<open>'B53'\<close> is exempt.
\<close>

lemma canonicalize_B35: "canonicalize ''B35'' = Inr ''B35'' \<and> canonicalize ''B53'' = Inr ''B53''"
  by (simp add: canonicalize_def)

text \<open>
  On an empty corpus \<^verbatim>\<open>build_hash_table\<close> returns the empty table, whatever
  the other arguments are.
\<close>

theorem build_hash_table_empty_corpus:
  "build_hash_table blake2b to_undirected [] hasher graphlets max_graphs graphlet_size mode directed
     = Inr Map.empty"
  by (simp add: build_hash_table_def py_prefix_def)

text \<open>
  With \<^verbatim>\<open>graphlets=True\<close> a graph without nodes contributes nothing: the loop
  goes on with the table as it is.
\<close>

theorem graph_loop_no_nodes:
  assumes "nodes (if \<not> directed then to_undirected g else g) = []"
  shows "graph_loop blake2b to_undirected hasher True graphlet_size mode directed hash_table
           (g # graphlist) =
         graph_loop blake2b to_undirected hasher True graphlet_size mode directed hash_table
           graphlist"
  using assms by (simp add: todo_list_def Let_def)

theorem graph_loop_no_nodes_witness:
  "nodes G_none = [] \<and>
   graph_loop id id default_hasher True 1 ''count'' True Map.empty [G_none, G_A] =
   graph_loop id id default_hasher True 1 ''count'' True Map.empty [G_A]"
  using graph_loop_no_nodes [of True id G_none id default_hasher 1 "''count''" Map.empty "[G_A]"]
  by (simp add: G_none_def)

text \<open>
  With zero iterations the digest is the BLAKE2b digest of \<^verbatim>\<open>'()'\<close> for every
  graph on which the canonicalisation does not raise: it depends neither on the nodes
  nor on the labels.
\<close>

theorem hash_zero_iterations:
  assumes "wl_hops self = 0" "hash blake2b self G = Inr (G', h)"
  shows "h = blake2b ''()''"
  using assms by (auto simp: hash_def wl_def str_tuple_def split: if_splits sum.splits)

theorem hash_zero_iterations_witness:
  "hash id \<lparr>symmetric_edges = True, wl_hops = 0\<rparr> G1_doc = Inr (G1_doc, ''()'')"
proof -
  have 1: "hash id \<lparr>symmetric_edges = True, wl_hops = 0\<rparr> G1_doc =
      Inr (G1_doc, snd (projr (hash id \<lparr>symmetric_edges = True, wl_hops = 0\<rparr> G1_doc)))"
    by (simp add: hash_def wl_def G1_doc_def canonicalize_def)
  from hash_zero_iterations [OF _ 1] 1 show ?thesis by simp
qed

end
